theory Spec2Isabelle
  imports Main "HOL-Library.Word"
begin

unbundle bit_operations_syntax

section \<open>Data model of morse.c\<close>

text \<open>
  The C types: \<open>uint8_t\<close> and \<open>uint32_t\<close> are words, so that \<open>+\<close>, \<open>-\<close> and \<open>*\<close> wrap
  as the unsigned C operations do and \<open>div\<close>, \<open>mod\<close>, \<open><\<close> are the unsigned ones.
  A buffer (\<open>uint8_t buf[MORSE_MAX_LEN]\<close>) is a list of bytes; a string (\<open>const char *\<close>)
  is the list of the characters that stand before its terminating NUL.
\<close>

type_synonym u8 = "8 word"
type_synonym u32 = "32 word"
type_synonym buffer = "u8 list"

definition MORSE_MAX_LEN :: u32 where
  "MORSE_MAX_LEN = 1024"

definition OFFSET :: nat where
  "OFFSET = 48"

definition MAX_CHAR :: nat where
  "MAX_CHAR = 90"

text \<open>\<open>static uint32_t morse_dot_duration = 60\<close>: initialised and never assigned.\<close>

definition morse_dot_duration :: u32 where
  "morse_dot_duration = 60"

text \<open>The table \<open>letters\<close>, entry \<open>k\<close> for the character with code \<open>k + OFFSET\<close>.\<close>

definition letters :: "string list" where
  "letters =
    [''-----'', ''.----'', ''..---'', ''...--'', ''....-'',
     ''.....'', ''-....'', ''--...'', ''---..'', ''----.'',
     '''', '''', '''', '''', '''', '''', '''',
     ''.-'', ''-...'', ''-.-.'', ''-..'', ''.'', ''..-.'', ''--.'', ''....'', ''..'',
     ''.---'', ''-.-'', ''.-..'', ''--'', ''-.'', ''---'', ''.--.'', ''--.-'', ''.-.'',
     ''...'', ''-'', ''..-'', ''...-'', ''.--'', ''-..-'', ''-.--'', ''--..'']"

text \<open>The three messages the code prints to \<open>stderr\<close>.\<close>

datatype diag = Buffer_too_small | Invalid_char char | Size_limit_reached

text \<open>
  What the encoder works on: the buffer its \<open>buf\<close> argument points to and the
  diagnostic channel. The encoder touches memory through \<open>buf\<close> only.
\<close>

record enc =
  ebuf :: buffer
  estderr :: "diag list"

text \<open>The two pointers \<open>morse_live_buf\<close> and \<open>morse_next_buf\<close> point to one of the two arrays.\<close>

datatype buf_ptr = Buf1 | Buf2

record morse_state =
  morse_buf1 :: buffer
  morse_buf2 :: buffer
  morse_live_buf :: buf_ptr
  morse_next_buf :: buf_ptr
  morse_repeat :: bool
  morse_repeat_next :: bool
  morse_elapsed_time :: u32
  stderr_out :: "diag list"
  cb_calls :: "bool list"

text \<open>
  \<open>stderr_out\<close> is what has been printed to \<open>stderr\<close>, \<open>cb_calls\<close> the arguments
  \<open>morse_cb\<close> has been called with, both oldest first. The caller is taken to have
  installed \<open>morse_cb\<close>.
\<close>

fun deref :: "morse_state \<Rightarrow> buf_ptr \<Rightarrow> buffer" where
  "deref st Buf1 = morse_buf1 st"
| "deref st Buf2 = morse_buf2 st"

fun store :: "buf_ptr \<Rightarrow> buffer \<Rightarrow> morse_state \<Rightarrow> morse_state" where
  "store Buf1 b st = st\<lparr>morse_buf1 := b\<rparr>"
| "store Buf2 b st = st\<lparr>morse_buf2 := b\<rparr>"

text \<open>The state at program start: zeroed static arrays and the initialisers of the file.\<close>

definition morse_init :: morse_state where
  "morse_init =
    \<lparr>morse_buf1 = replicate (unat MORSE_MAX_LEN) 0,
     morse_buf2 = replicate (unat MORSE_MAX_LEN) 0,
     morse_live_buf = Buf1, morse_next_buf = Buf2,
     morse_repeat = False, morse_repeat_next = False,
     morse_elapsed_time = 0, stderr_out = [], cb_calls = []\<rparr>"

section \<open>Buffer primitives\<close>

text \<open>
  \<open>morse_encode_len\<close> and \<open>morse_len\<close> access bytes 0 to 3, which every buffer of the
  program has (\<open>morse_encode\<close> refuses a size below 4, the arrays have 1024 bytes).
\<close>

definition morse_encode_len :: "buffer \<Rightarrow> u32 \<Rightarrow> buffer" where
  "morse_encode_len buf bit_len =
    buf[0 := ucast (drop_bit 24 (bit_len AND 0xFF000000)),
        1 := ucast (drop_bit 16 (bit_len AND 0x00FF0000)),
        2 := ucast (drop_bit 8 (bit_len AND 0x0000FF00)),
        3 := ucast (bit_len AND 0x000000FF)]"

definition morse_len :: "buffer \<Rightarrow> u32" where
  "morse_len buf =
    push_bit 24 (ucast (buf ! 0)) OR push_bit 16 (ucast (buf ! 1)) OR
    push_bit 8 (ucast (buf ! 2)) OR ucast (buf ! 3)"

text \<open>
  \<open>morse_bit\<close> reads \<open>buf[i / 8]\<close> with no check. A read outside the array is undefined
  behaviour in C: the model returns \<open>None\<close> there.
\<close>

definition morse_bit :: "buffer \<Rightarrow> u32 \<Rightarrow> bool option" where
  "morse_bit buf bit_index =
    (let i = bit_index + 32 in
     if unat (i div 8) < length buf
     then Some (bit (buf ! unat (i div 8)) (unat (i mod 8)))
     else None)"

section \<open>The encoder\<close>

text \<open>
  The loop of \<open>morse_encode_bit\<close>, from \<open>i\<close> up to \<open>e = *index + n\<close>. It returns whether
  it ran to the end. A store outside the array (undefined behaviour in C) is \<open>None\<close>.
\<close>

function encode_bit_loop :: "enc \<Rightarrow> bool \<Rightarrow> u32 \<Rightarrow> u32 \<Rightarrow> u32 \<Rightarrow> (bool \<times> enc) option" where
  "encode_bit_loop w val i e limit =
    (if i < e then
       if i \<ge> limit then
         Some (False, w\<lparr>ebuf := (ebuf w)[3 := 0, 2 := 0, 1 := 0, 0 := 0],
                          estderr := estderr w @ [Size_limit_reached]\<rparr>)
       else
         let bit_index = unat (i mod 8);
             buf_index = unat (i div 8)
         in if buf_index < length (ebuf w) then
              let b0 = (if bit_index = 0 then (ebuf w)[buf_index := 0] else ebuf w);
                  b1 = b0[buf_index := (b0 ! buf_index) OR push_bit bit_index (of_bool val)]
              in encode_bit_loop (w\<lparr>ebuf := b1\<rparr>) val (i + 1) e limit
            else None
     else Some (True, w))"
  by pat_completeness auto
termination
proof (relation "measure (\<lambda>(w, val, i, e, limit). unat e - unat i)")
  fix w :: enc and val :: bool and i e limit :: u32 and b :: buffer
  assume "i < e"
  then have "unat e - unat (i + 1) < unat e - unat i"
    by unat_arith
  then show "((w\<lparr>ebuf := b\<rparr>, val, i + 1, e, limit), (w, val, i, e, limit))
      \<in> measure (\<lambda>(w, val, i, e, limit). unat e - unat i)"
    by simp
qed simp

declare encode_bit_loop.simps [simp del]

text \<open>\<open>morse_encode_bit\<close> returns its result, the value of \<open>*index\<close> afterwards, and the buffer.\<close>

definition morse_encode_bit :: "enc \<Rightarrow> bool \<Rightarrow> u8 \<Rightarrow> u32 \<Rightarrow> u32 \<Rightarrow> (bool \<times> u32 \<times> enc) option" where
  "morse_encode_bit w val n index limit =
    (case encode_bit_loop w val index (index + ucast n) limit of
       None \<Rightarrow> None
     | Some (ok, w') \<Rightarrow> if ok then Some (True, index + ucast n, w') else Some (False, index, w'))"

text \<open>
  \<open>toupper\<close> in the "C" locale (the program never calls \<open>setlocale\<close>): the letters
  \<open>a\<close> to \<open>z\<close> lose 32, every other character stays. (For a byte from 128 on and a
  signed \<open>char\<close> the C standard leaves the call undefined; the C libraries return the
  byte unchanged, as here.)
\<close>

definition toupper :: "char \<Rightarrow> char" where
  "toupper c =
    (if 97 \<le> (of_char c :: nat) \<and> (of_char c :: nat) \<le> 122
     then char_of ((of_char c :: nat) - 32) else c)"

text \<open>The loop of \<open>morse_encode_char\<close> over the elements of \<open>series\<close>.\<close>

fun encode_series :: "enc \<Rightarrow> string \<Rightarrow> u32 \<Rightarrow> u32 \<Rightarrow> (bool \<times> u32 \<times> enc) option" where
  "encode_series w [] i limit = Some (True, i, w)"
| "encode_series w (element # rest) i limit =
    (case morse_encode_bit w False 1 i limit of
       None \<Rightarrow> None
     | Some (ok1, i1, w1) \<Rightarrow>
         if \<not> ok1 then Some (False, i1, w1)
         else
           (case (if element = CHR ''.'' then morse_encode_bit w1 True 1 i1 limit
                  else morse_encode_bit w1 True 3 i1 limit) of
              None \<Rightarrow> None
            | Some (ok2, i2, w2) \<Rightarrow>
                if \<not> ok2 then Some (False, i2, w2)
                else encode_series w2 rest i2 limit))"

text \<open>
  \<open>morse_encode_char\<close> returns a \<open>uint8_t\<close>: 0 for a failure, else the low byte of
  \<open>i - index\<close>. The comparison \<open>c < OFFSET || c > MAX_CHAR\<close> is made on the character
  code; a byte from 128 on is rejected whether \<open>char\<close> is signed (then it is below
  \<open>OFFSET\<close>) or unsigned (then it is above \<open>MAX_CHAR\<close>), as it is here.
\<close>

definition morse_encode_char :: "enc \<Rightarrow> char \<Rightarrow> u32 \<Rightarrow> u32 \<Rightarrow> (u8 \<times> enc) option" where
  "morse_encode_char w ch index limit =
    (let c = toupper ch in
     if c = CHR '' '' then
       (case morse_encode_bit w False 4 index limit of
          None \<Rightarrow> None
        | Some (ok, i, w') \<Rightarrow> if \<not> ok then Some (0, w') else Some (ucast (i - index), w'))
     else if (of_char c :: nat) < OFFSET \<or> (of_char c :: nat) > MAX_CHAR then
       Some (0, w\<lparr>estderr := estderr w @ [Invalid_char ch]\<rparr>)
     else
       (case morse_encode_bit w False 2 index limit of
          None \<Rightarrow> None
        | Some (ok, i, w') \<Rightarrow>
            if \<not> ok then Some (0, w')
            else
              (case encode_series w' (letters ! ((of_char c :: nat) - OFFSET)) i limit of
                 None \<Rightarrow> None
               | Some (ok', i', w'') \<Rightarrow>
                   if \<not> ok' then Some (0, w'') else Some (ucast (i' - index), w''))))"

text \<open>
  The two loops of \<open>morse_encode\<close> have the same body: the first runs over the
  characters of \<open>s\<close>, the second over three spaces.
\<close>

fun encode_chars :: "enc \<Rightarrow> string \<Rightarrow> u32 \<Rightarrow> u32 \<Rightarrow> (bool \<times> u32 \<times> enc) option" where
  "encode_chars w [] i bit_size = Some (True, i, w)"
| "encode_chars w (c # cs) i bit_size =
    (case morse_encode_char w c i bit_size of
       None \<Rightarrow> None
     | Some (char_len, w') \<Rightarrow>
         if char_len = 0 then Some (False, i, w')
         else encode_chars w' cs (i + ucast char_len) bit_size)"

definition morse_encode :: "enc \<Rightarrow> string \<Rightarrow> u32 \<Rightarrow> (bool \<times> enc) option" where
  "morse_encode w s sz =
    (if sz < 4 then Some (False, w\<lparr>estderr := estderr w @ [Buffer_too_small]\<rparr>)
     else
       let bit_size = sz * 8 in
       (case encode_chars w s 32 bit_size of
          None \<Rightarrow> None
        | Some (ok, i, w1) \<Rightarrow>
            if \<not> ok then Some (False, w1)
            else
              (case encode_chars w1 (replicate 3 (CHR '' '')) i bit_size of
                 None \<Rightarrow> None
               | Some (ok', i', w2) \<Rightarrow>
                   if \<not> ok' then Some (False, w2)
                   else Some (True, w2\<lparr>ebuf := morse_encode_len (ebuf w2) (i' - 32)\<rparr>))))"

section \<open>The playback engine\<close>

definition morse :: "string \<Rightarrow> bool \<Rightarrow> morse_state \<Rightarrow> morse_state option" where
  "morse s repeat st =
    (case morse_encode \<lparr>ebuf = deref st (morse_next_buf st), estderr = stderr_out st\<rparr>
            s MORSE_MAX_LEN of
       None \<Rightarrow> None
     | Some (ok, w) \<Rightarrow>
         Some ((store (morse_next_buf st) (ebuf w) st)
                 \<lparr>morse_repeat := False, morse_repeat_next := repeat,
                  stderr_out := estderr w\<rparr>))"

definition morse_switch_buf :: "morse_state \<Rightarrow> morse_state" where
  "morse_switch_buf st =
    (let st1 = (if morse_live_buf st = Buf1
                then st\<lparr>morse_live_buf := Buf2, morse_next_buf := Buf1\<rparr>
                else st\<lparr>morse_live_buf := Buf1, morse_next_buf := Buf2\<rparr>);
         st2 = st1\<lparr>morse_repeat := morse_repeat_next st1, morse_repeat_next := False\<rparr>
     in store (morse_next_buf st2) (morse_encode_len (deref st2 (morse_next_buf st2)) 0) st2)"

definition morse_update :: "u32 \<Rightarrow> morse_state \<Rightarrow> morse_state option" where
  "morse_update elapsed_ms st =
    (let live_len = morse_len (deref st (morse_live_buf st)) in
     if live_len = 0 \<and> morse_len (deref st (morse_next_buf st)) = 0 then Some st
     else
       let st1 = st\<lparr>morse_elapsed_time := morse_elapsed_time st + elapsed_ms\<rparr>;
           bit_index = morse_elapsed_time st1 div morse_dot_duration;
           st2 = (if bit_index \<ge> live_len
                  then (if \<not> morse_repeat st1 then morse_switch_buf st1 else st1)
                         \<lparr>morse_elapsed_time := 0\<rparr>
                  else st1)
       in (case morse_bit (deref st2 (morse_live_buf st2)) bit_index of
             None \<Rightarrow> None
           | Some b \<Rightarrow> Some (st2\<lparr>cb_calls := cb_calls st2 @ [b]\<rparr>)))"

definition morse_stop :: "morse_state \<Rightarrow> morse_state" where
  "morse_stop st = st\<lparr>morse_repeat := False\<rparr>"

definition morse_interrupt :: "morse_state \<Rightarrow> morse_state" where
  "morse_interrupt st =
    (store (morse_live_buf st) (morse_encode_len (deref st (morse_live_buf st)) 0) st)
      \<lparr>morse_repeat := False\<rparr>"

section \<open>Vocabulary of the properties\<close>

text \<open>
  The unit costs the specification gives: an element costs its leading off unit plus
  1 for a dot or 3 for a dash; a letter or digit costs 2 plus the cost of the elements
  of its table entry; a space costs 4.
\<close>

definition symbol_units :: "char \<Rightarrow> nat" where
  "symbol_units x = 1 + (if x = CHR ''.'' then 1 else 3)"

definition series_units :: "string \<Rightarrow> nat" where
  "series_units es = sum_list (map symbol_units es)"

definition unit_cost :: "char \<Rightarrow> nat" where
  "unit_cost ch =
    (if toupper ch = CHR '' '' then 4
     else 2 + series_units (letters ! ((of_char (toupper ch) :: nat) - OFFSET)))"

definition message_cost :: "string \<Rightarrow> nat" where
  "message_cost s = sum_list (map unit_cost s)"

text \<open>The characters \<open>0-9\<close>, \<open>A-Z\<close>, \<open>a-z\<close> and the space.\<close>

definition alnum_or_space :: "char \<Rightarrow> bool" where
  "alnum_or_space ch \<longleftrightarrow>
     (48 \<le> (of_char ch :: nat) \<and> (of_char ch :: nat) \<le> 57) \<or>
     (65 \<le> (of_char ch :: nat) \<and> (of_char ch :: nat) \<le> 90) \<or>
     (97 \<le> (of_char ch :: nat) \<and> (of_char ch :: nat) \<le> 122) \<or>
     ch = CHR '' ''"

text \<open>
  The characters \<open>morse_encode_char\<close> does not refuse: the space, and those that pass
  the test on \<open>OFFSET\<close> and \<open>MAX_CHAR\<close> after \<open>toupper\<close>.
\<close>

definition accepted :: "char \<Rightarrow> bool" where
  "accepted ch \<longleftrightarrow>
     toupper ch = CHR '' '' \<or>
     (OFFSET \<le> (of_char (toupper ch) :: nat) \<and> (of_char (toupper ch) :: nat) \<le> MAX_CHAR)"

text \<open>
  How a run of the encoder leaves the buffer and the diagnostics: with the length
  header and the diagnostics as they were, or with the header zeroed and the overflow
  diagnostic printed. The array keeps its size in both.
\<close>

definition same_hdr :: "enc \<Rightarrow> enc \<Rightarrow> bool" where
  "same_hdr w w' \<longleftrightarrow>
     length (ebuf w') = length (ebuf w) \<and> take 4 (ebuf w') = take 4 (ebuf w) \<and>
     estderr w' = estderr w"

definition overflowed :: "enc \<Rightarrow> enc \<Rightarrow> bool" where
  "overflowed w w' \<longleftrightarrow>
     length (ebuf w') = length (ebuf w) \<and> take 4 (ebuf w') = [0, 0, 0, 0] \<and>
     estderr w' = estderr w @ [Size_limit_reached]"

definition hdr_kept_or_zero :: "enc \<Rightarrow> enc \<Rightarrow> bool" where
  "hdr_kept_or_zero w w' \<longleftrightarrow>
     length (ebuf w') = length (ebuf w) \<and>
     (take 4 (ebuf w') = take 4 (ebuf w) \<or> take 4 (ebuf w') = [0, 0, 0, 0])"

text \<open>
  What holds of the write index inside \<open>morse_encode\<close>: it is past the header and not
  past the limit, the limit is not past the array, and \<open>*index + n\<close> does not wrap.
\<close>

definition enc_pre :: "enc \<Rightarrow> u32 \<Rightarrow> u32 \<Rightarrow> bool" where
  "enc_pre w i limit \<longleftrightarrow>
     32 \<le> unat i \<and> unat i \<le> unat limit \<and> unat limit \<le> 8 * length (ebuf w) \<and>
     unat limit + 255 < 2 ^ 32"

text \<open>
  The invariant of the engine's state: both arrays have \<open>MORSE_MAX_LEN\<close> bytes, the two
  pointers point to different arrays, and a length header never exceeds the bits that
  follow it in the array.
\<close>

definition morse_wf :: "morse_state \<Rightarrow> bool" where
  "morse_wf st \<longleftrightarrow>
     length (morse_buf1 st) = unat MORSE_MAX_LEN \<and>
     length (morse_buf2 st) = unat MORSE_MAX_LEN \<and>
     morse_live_buf st \<noteq> morse_next_buf st \<and>
     unat (morse_len (morse_buf1 st)) + 32 \<le> 8 * unat MORSE_MAX_LEN \<and>
     unat (morse_len (morse_buf2 st)) + 32 \<le> 8 * unat MORSE_MAX_LEN"

text \<open>The states the program can be in: the initial one and what the four entry points make of it.\<close>

inductive reachable :: "morse_state \<Rightarrow> bool" where
  reachable_init: "reachable morse_init"
| reachable_morse: "reachable st \<Longrightarrow> morse s repeat st = Some st' \<Longrightarrow> reachable st'"
| reachable_update: "reachable st \<Longrightarrow> morse_update ms st = Some st' \<Longrightarrow> reachable st'"
| reachable_stop: "reachable st \<Longrightarrow> reachable (morse_stop st)"
| reachable_interrupt: "reachable st \<Longrightarrow> reachable (morse_interrupt st)"

text \<open>Both buffers are empty: \<open>morse_update\<close> returns at once.\<close>

definition idle :: "morse_state \<Rightarrow> bool" where
  "idle st \<longleftrightarrow>
     morse_len (deref st (morse_live_buf st)) = 0 \<and>
     morse_len (deref st (morse_next_buf st)) = 0"

text \<open>The index of the bit a call \<open>morse_update elapsed_ms\<close> computes.\<close>

definition tick_index :: "u32 \<Rightarrow> morse_state \<Rightarrow> u32" where
  "tick_index elapsed_ms st = (morse_elapsed_time st + elapsed_ms) div morse_dot_duration"

text \<open>Successive calls of \<open>morse_update\<close>, one for each elapsed time of the list.\<close>

fun ticks :: "u32 list \<Rightarrow> morse_state \<Rightarrow> morse_state option" where
  "ticks [] st = Some st"
| "ticks (ms # mss) st =
    (case morse_update ms st of None \<Rightarrow> None | Some st' \<Rightarrow> ticks mss st')"

text \<open>
  The calls of the list all stay before the boundary of the live message: each computes
  a bit index below the live length.
\<close>

fun within_pass :: "u32 list \<Rightarrow> morse_state \<Rightarrow> bool" where
  "within_pass [] st = True"
| "within_pass (ms # mss) st =
    (tick_index ms st < morse_len (deref st (morse_live_buf st)) \<and>
     within_pass mss (st\<lparr>morse_elapsed_time := morse_elapsed_time st + ms\<rparr>))"

text \<open>
  Three states for the concrete instances below. The first is the state after
  \<open>morse("E", false)\<close> at program start: the 16 units of \<open>E\<close> are queued in
  \<open>morse_buf2\<close>. The second is the state after \<open>morse("E", true)\<close> and three calls of
  \<open>morse_update\<close> with 0, 60 and 60 ms: \<open>E\<close> is live in \<open>morse_buf2\<close> and repeats,
  nothing is queued. In the third \<open>E\<close> is live, \<open>TTT\<close> (30 units) is queued in
  \<open>morse_buf1\<close> and the live message is at its end.
\<close>

definition example_submitted :: morse_state where
  "example_submitted =
    \<lparr>morse_buf1 = replicate 1024 0,
     morse_buf2 = [0, 0, 0, 16, 8] @ replicate 1019 0,
     morse_live_buf = Buf1, morse_next_buf = Buf2,
     morse_repeat = False, morse_repeat_next = False,
     morse_elapsed_time = 0, stderr_out = [], cb_calls = []\<rparr>"

definition example_playing :: morse_state where
  "example_playing =
    \<lparr>morse_buf1 = replicate 1024 0,
     morse_buf2 = [0, 0, 0, 16, 8] @ replicate 1019 0,
     morse_live_buf = Buf2, morse_next_buf = Buf1,
     morse_repeat = True, morse_repeat_next = False,
     morse_elapsed_time = 120, stderr_out = [], cb_calls = [False, False, False]\<rparr>"

definition example_queued :: morse_state where
  "example_queued =
    \<lparr>morse_buf1 = [0, 0, 0, 30, 56, 142, 3] @ replicate 1017 0,
     morse_buf2 = [0, 0, 0, 16, 8] @ replicate 1019 0,
     morse_live_buf = Buf2, morse_next_buf = Buf1,
     morse_repeat = False, morse_repeat_next = False,
     morse_elapsed_time = 900, stderr_out = [], cb_calls = []\<rparr>"

section \<open>The bit writer\<close>

text \<open>
  A run of \<open>morse_encode_bit\<close> from an index past the header either fits below the
  limit, and then leaves the header and the diagnostics alone, or it reaches the limit,
  and then zeroes the header and prints the overflow diagnostic. It never stores
  outside the array. The same holds of the loops built on it.
\<close>

lemma same_hdr_refl: "same_hdr w w"
  by (simp add: same_hdr_def)

lemma same_hdr_trans: "same_hdr w w1 \<Longrightarrow> same_hdr w1 w2 \<Longrightarrow> same_hdr w w2"
  by (simp add: same_hdr_def)

lemma same_hdr_overflowed: "same_hdr w w1 \<Longrightarrow> overflowed w1 w2 \<Longrightarrow> overflowed w w2"
  by (simp add: same_hdr_def overflowed_def)

lemma zero_hdr: "4 \<le> length b \<Longrightarrow> take 4 (b[3 := 0, 2 := 0, 1 := 0, 0 := 0]) = [0, 0, 0, 0::u8]"
  by (auto simp: numeral_eq_Suc Suc_le_length_iff)

lemma encode_bit_loop_run:
  assumes "32 \<le> unat i" "unat i \<le> unat e" "unat i \<le> unat limit"
    and "unat limit \<le> 8 * length (ebuf w)"
  shows "\<exists>w'. encode_bit_loop w v i e limit = Some (unat e \<le> unat limit, w') \<and>
           (if unat e \<le> unat limit then same_hdr w w' else overflowed w w')"
  using assms
proof (induction "unat e - unat i" arbitrary: w i)
  case 0
  then have "\<not> i < e" "unat e \<le> unat limit"
    by (simp_all add: word_less_nat_alt)
  then show ?case
    by (subst encode_bit_loop.simps) (simp add: same_hdr_refl)
next
  case (Suc d)
  from Suc.hyps(2) have lt: "i < e"
    by (simp add: word_less_nat_alt)
  show ?case
  proof (cases "limit \<le> i")
    case True
    with Suc.prems have "unat i = unat limit"
      by (simp add: word_le_nat_alt)
    with lt have "\<not> unat e \<le> unat limit"
      by (simp add: word_less_nat_alt)
    moreover have "4 \<le> length (ebuf w)"
      using Suc.prems by linarith
    then have "take 4 ((ebuf w)[3 := 0, 2 := 0, 1 := 0, 0 := 0]) = [0, 0, 0, 0]"
      by (rule zero_hdr)
    ultimately show ?thesis
      using lt True
      by (subst encode_bit_loop.simps) (simp add: overflowed_def)
  next
    case False
    then have il: "unat i < unat limit"
      by (simp add: word_le_nat_alt)
    have next_i: "unat (i + 1) = unat i + 1"
      using lt by unat_arith
    have idx: "unat (i div 8) = unat i div 8"
      by (simp add: unat_div)
    have inb: "unat (i div 8) < length (ebuf w)"
      using il Suc.prems(4) unfolding idx by linarith
    have four: "4 \<le> unat (i div 8)"
      using Suc.prems(1) unfolding idx by linarith
    define b0 where "b0 = (if unat (i mod 8) = 0 then (ebuf w)[unat (i div 8) := 0] else ebuf w)"
    define b1 where "b1 = b0[unat (i div 8) := (b0 ! unat (i div 8)) OR push_bit (unat (i mod 8)) (of_bool v)]"
    define w1 where "w1 = w\<lparr>ebuf := b1\<rparr>"
    have step: "encode_bit_loop w v i e limit = encode_bit_loop w1 v (i + 1) e limit"
      using lt False inb
      by (subst encode_bit_loop.simps) (simp add: Let_def w1_def b1_def b0_def)
    have sh: "same_hdr w w1"
      using four by (simp add: same_hdr_def w1_def b1_def b0_def)
    have "\<exists>w'. encode_bit_loop w1 v (i + 1) e limit = Some (unat e \<le> unat limit, w') \<and>
           (if unat e \<le> unat limit then same_hdr w1 w' else overflowed w1 w')"
    proof (rule Suc.hyps(1))
      show "d = unat e - unat (i + 1)"
        using Suc.hyps(2) next_i by simp
      show "32 \<le> unat (i + 1)" "unat (i + 1) \<le> unat e" "unat (i + 1) \<le> unat limit"
        using Suc.prems lt il next_i by (simp_all add: word_less_nat_alt)
      show "unat limit \<le> 8 * length (ebuf w1)"
        using Suc.prems(4) sh by (simp add: same_hdr_def)
    qed
    then obtain w' where r: "encode_bit_loop w1 v (i + 1) e limit = Some (unat e \<le> unat limit, w')"
      and h: "if unat e \<le> unat limit then same_hdr w1 w' else overflowed w1 w'"
      by blast
    from h sh have "if unat e \<le> unat limit then same_hdr w w' else overflowed w w'"
      by (auto intro: same_hdr_trans same_hdr_overflowed split: if_splits)
    with r show ?thesis
      unfolding step by blast
  qed
qed

lemma unat_index_add:
  fixes i limit :: u32
  assumes "unat i \<le> unat limit" "unat limit + 255 < 2 ^ 32" "k \<le> 255"
  shows "unat (i + of_nat k) = unat i + k"
proof -
  have "unat (of_nat k :: u32) = k"
    using assms(3) by (simp add: unat_of_nat)
  moreover have "unat i + k < 2 ^ 32"
    using assms by linarith
  ultimately show ?thesis
    by (simp add: unat_add_lem [THEN iffD1])
qed

lemma morse_encode_bit_fits:
  assumes "enc_pre w i limit" "unat i + unat n \<le> unat limit"
  shows "\<exists>w'. morse_encode_bit w v n i limit = Some (True, i + of_nat (unat n), w') \<and>
           same_hdr w w'"
proof -
  have n: "unat n \<le> 255"
    using unsigned_less [of n, where ?'a = nat] by simp
  have e: "unat (i + ucast n) = unat i + unat n"
    using assms(1) n unat_index_add [of i limit "unat n"] by (simp add: enc_pre_def)
  have "\<exists>w'. encode_bit_loop w v i (i + ucast n) limit = Some (unat (i + ucast n) \<le> unat limit, w') \<and>
           (if unat (i + ucast n) \<le> unat limit then same_hdr w w' else overflowed w w')"
    using assms(1) e by (intro encode_bit_loop_run) (simp_all add: enc_pre_def)
  then show ?thesis
    using assms(2) e by (auto simp: morse_encode_bit_def)
qed

lemma morse_encode_bit_over:
  assumes "enc_pre w i limit" "unat limit < unat i + unat n"
  shows "\<exists>w'. morse_encode_bit w v n i limit = Some (False, i, w') \<and> overflowed w w'"
proof -
  have n: "unat n \<le> 255"
    using unsigned_less [of n, where ?'a = nat] by simp
  have e: "unat (i + ucast n) = unat i + unat n"
    using assms(1) n unat_index_add [of i limit "unat n"] by (simp add: enc_pre_def)
  have "\<exists>w'. encode_bit_loop w v i (i + ucast n) limit = Some (unat (i + ucast n) \<le> unat limit, w') \<and>
           (if unat (i + ucast n) \<le> unat limit then same_hdr w w' else overflowed w w')"
    using assms(1) e by (intro encode_bit_loop_run) (simp_all add: enc_pre_def)
  then show ?thesis
    using assms(2) e by (auto simp: morse_encode_bit_def)
qed

lemma series_units_Cons: "series_units (x # xs) = symbol_units x + series_units xs"
  by (simp add: series_units_def)

lemma series_units_Nil: "series_units [] = 0"
  by (simp add: series_units_def)

lemma encode_series_fits:
  assumes "enc_pre w i limit" "unat i + series_units es \<le> unat limit"
  shows "\<exists>w'. encode_series w es i limit = Some (True, i + of_nat (series_units es), w') \<and>
           same_hdr w w'"
  using assms
proof (induction es arbitrary: w i)
  case Nil
  then show ?case
    by (simp add: series_units_Nil same_hdr_refl)
next
  case (Cons x xs)
  let ?n = "if x = CHR ''.'' then (1 :: u8) else 3"
  have un: "unat ?n + 1 = symbol_units x"
    by (simp add: symbol_units_def)
  from Cons.prems have lim: "unat limit + 255 < 2 ^ 32"
    by (simp add: enc_pre_def)
  from Cons.prems have f1: "unat i + unat (1 :: u8) \<le> unat limit"
    by (simp add: series_units_Cons symbol_units_def)
  from morse_encode_bit_fits [OF Cons.prems(1) f1, of False]
  obtain w1 where r1: "morse_encode_bit w False 1 i limit = Some (True, i + 1, w1)"
    and h1: "same_hdr w w1"
    by auto
  have u1: "unat (i + 1) = unat i + 1"
    using unat_index_add [of i limit 1] Cons.prems(1) by (simp add: enc_pre_def)
  have p1: "enc_pre w1 (i + 1) limit"
    using Cons.prems f1 h1 u1 by (simp add: enc_pre_def same_hdr_def)
  have f2: "unat (i + 1) + unat ?n \<le> unat limit"
    using Cons.prems(2) u1 un by (simp add: series_units_Cons)
  from morse_encode_bit_fits [OF p1 f2, of True]
  obtain w2 where r2: "morse_encode_bit w1 True ?n (i + 1) limit
      = Some (True, i + 1 + of_nat (unat ?n), w2)"
    and h2: "same_hdr w1 w2"
    by auto
  have u2: "unat (i + 1 + of_nat (unat ?n)) = unat i + symbol_units x"
    using unat_index_add [of "i + 1" limit "unat ?n"] p1 u1 un
    by (simp add: enc_pre_def)
  have p2: "enc_pre w2 (i + 1 + of_nat (unat ?n)) limit"
    using Cons.prems p1 h2 u2 by (simp add: enc_pre_def same_hdr_def series_units_Cons)
  have f3: "unat (i + 1 + of_nat (unat ?n)) + series_units xs \<le> unat limit"
    using Cons.prems(2) u2 by (simp add: series_units_Cons)
  from Cons.IH [OF p2 f3]
  obtain w3 where r3: "encode_series w2 xs (i + 1 + of_nat (unat ?n)) limit
      = Some (True, i + 1 + of_nat (unat ?n) + of_nat (series_units xs), w3)"
    and h3: "same_hdr w2 w3"
    by auto
  have "i + 1 + of_nat (unat ?n) + of_nat (series_units xs) = i + of_nat (series_units (x # xs))"
    by (simp add: series_units_Cons symbol_units_def)
  moreover have "same_hdr w w3"
    using h1 h2 h3 by (blast intro: same_hdr_trans)
  ultimately show ?case
    using r1 r2 r3 by (auto split: if_splits)
qed

lemma encode_series_over:
  assumes "enc_pre w i limit" "unat limit < unat i + series_units es"
  shows "\<exists>i' w'. encode_series w es i limit = Some (False, i', w') \<and> overflowed w w'"
  using assms
proof (induction es arbitrary: w i)
  case Nil
  then show ?case
    by (simp add: series_units_Nil enc_pre_def)
next
  case (Cons x xs)
  let ?n = "if x = CHR ''.'' then (1 :: u8) else 3"
  have un: "unat ?n + 1 = symbol_units x"
    by (simp add: symbol_units_def)
  show ?case
  proof (cases "unat i + unat (1 :: u8) \<le> unat limit")
    case False
    then have "unat limit < unat i + unat (1 :: u8)"
      by simp
    from morse_encode_bit_over [OF Cons.prems(1) this, of False]
    show ?thesis
      by auto
  next
    case f1: True
    from morse_encode_bit_fits [OF Cons.prems(1) f1, of False]
    obtain w1 where r1: "morse_encode_bit w False 1 i limit = Some (True, i + 1, w1)"
      and h1: "same_hdr w w1"
      by auto
    have u1: "unat (i + 1) = unat i + 1"
      using unat_index_add [of i limit 1] Cons.prems(1) by (simp add: enc_pre_def)
    have p1: "enc_pre w1 (i + 1) limit"
      using Cons.prems f1 h1 u1 by (simp add: enc_pre_def same_hdr_def)
    show ?thesis
    proof (cases "unat (i + 1) + unat ?n \<le> unat limit")
      case False
      then have "unat limit < unat (i + 1) + unat ?n"
        by simp
      from morse_encode_bit_over [OF p1 this, of True]
      obtain w2 where r2: "morse_encode_bit w1 True ?n (i + 1) limit = Some (False, i + 1, w2)"
        and h2: "overflowed w1 w2"
        by auto
      from h1 h2 have "overflowed w w2"
        by (rule same_hdr_overflowed)
      then show ?thesis
        using r1 r2 by (auto split: if_splits)
    next
      case f2: True
      from morse_encode_bit_fits [OF p1 f2, of True]
      obtain w2 where r2: "morse_encode_bit w1 True ?n (i + 1) limit
          = Some (True, i + 1 + of_nat (unat ?n), w2)"
        and h2: "same_hdr w1 w2"
        by auto
      have u2: "unat (i + 1 + of_nat (unat ?n)) = unat i + symbol_units x"
        using unat_index_add [of "i + 1" limit "unat ?n"] p1 u1 un
        by (simp add: enc_pre_def)
      have p2: "enc_pre w2 (i + 1 + of_nat (unat ?n)) limit"
        using f2 p1 h2 u1 u2 un by (simp add: enc_pre_def same_hdr_def)
      have f3: "unat limit < unat (i + 1 + of_nat (unat ?n)) + series_units xs"
        using Cons.prems(2) u2 by (simp add: series_units_Cons)
      from Cons.IH [OF p2 f3]
      obtain i3 w3 where r3: "encode_series w2 xs (i + 1 + of_nat (unat ?n)) limit
          = Some (False, i3, w3)"
        and h3: "overflowed w2 w3"
        by auto
      have "overflowed w w3"
        using h1 h2 h3 by (blast intro: same_hdr_trans same_hdr_overflowed)
      then show ?thesis
        using r1 r2 r3 by (auto split: if_splits)
    qed
  qed
qed

lemma letters_units: "list_all (\<lambda>es. series_units es \<le> 20) letters"
  by (simp add: letters_def series_units_def symbol_units_def)

lemma length_letters: "length letters = 43"
  by (simp add: letters_def)

lemma table_entry_units:
  assumes "k < 43"
  shows "series_units (letters ! k) \<le> 20"
  using letters_units assms by (simp add: list_all_length length_letters)

lemma accepted_index:
  assumes "accepted ch" "toupper ch \<noteq> CHR '' ''"
  shows "(of_char (toupper ch) :: nat) - OFFSET < 43"
  using assms by (auto simp: accepted_def OFFSET_def MAX_CHAR_def)

lemma unit_cost_bounds:
  assumes "accepted ch"
  shows "2 \<le> unit_cost ch" "unit_cost ch \<le> 22"
  using assms table_entry_units [OF accepted_index [OF assms]]
  by (auto simp: unit_cost_def)

lemma u8_of_index_diff:
  fixes i :: u32
  assumes "k < 256"
  shows "(ucast (i + of_nat k - i) :: u8) = of_nat k"
proof -
  have "i + of_nat k - i = (of_nat k :: u32)"
    by simp
  moreover have "k < 2 ^ 32"
    using assms by simp
  ultimately show ?thesis
    by (simp add: unsigned_of_nat take_bit_nat_eq_self)
qed

lemma u32_of_u8_of_nat:
  assumes "k < 256"
  shows "(ucast (of_nat k :: u8) :: u32) = of_nat k"
  by (simp add: unsigned_of_nat take_bit_nat_eq_self assms)

lemma u8_of_nat_nonzero:
  assumes "0 < k" "k < 256"
  shows "(of_nat k :: u8) \<noteq> 0"
proof
  assume "(of_nat k :: u8) = 0"
  then have "unat (of_nat k :: u8) = 0"
    by simp
  then show False
    using assms by (simp add: unat_of_nat)
qed

lemma morse_encode_char_invalid:
  assumes "\<not> accepted ch"
  shows "morse_encode_char w ch i limit
    = Some (0, w\<lparr>estderr := estderr w @ [Invalid_char ch]\<rparr>)"
  using assms by (auto simp: morse_encode_char_def accepted_def Let_def)

lemma morse_encode_char_fits:
  assumes "enc_pre w i limit" "accepted ch" "unat i + unit_cost ch \<le> unat limit"
  shows "\<exists>w'. morse_encode_char w ch i limit = Some (of_nat (unit_cost ch), w') \<and>
           same_hdr w w'"
proof (cases "toupper ch = CHR '' ''")
  case True
  then have "unat i + unat (4 :: u8) \<le> unat limit"
    using assms(3) by (simp add: unit_cost_def)
  from morse_encode_bit_fits [OF assms(1) this, of False]
  obtain w1 where "morse_encode_bit w False 4 i limit = Some (True, i + 4, w1)"
    and "same_hdr w w1"
    by auto
  then show ?thesis
    using True by (simp add: morse_encode_char_def unit_cost_def)
next
  case False
  define es where "es = letters ! ((of_char (toupper ch) :: nat) - OFFSET)"
  have cost: "unit_cost ch = 2 + series_units es"
    using False by (simp add: unit_cost_def es_def)
  have valid: "\<not> ((of_char (toupper ch) :: nat) < OFFSET \<or> (of_char (toupper ch) :: nat) > MAX_CHAR)"
    using assms(2) False by (auto simp: accepted_def)
  have small: "unit_cost ch < 256"
    using unit_cost_bounds(2) [OF assms(2)] by simp
  have f1: "unat i + unat (2 :: u8) \<le> unat limit"
    using assms(3) cost by simp
  from morse_encode_bit_fits [OF assms(1) f1, of False]
  obtain w1 where r1: "morse_encode_bit w False 2 i limit = Some (True, i + 2, w1)"
    and h1: "same_hdr w w1"
    by auto
  have u1: "unat (i + 2) = unat i + 2"
    using unat_index_add [of i limit 2] assms(1) by (simp add: enc_pre_def)
  have p1: "enc_pre w1 (i + 2) limit"
    using assms(1) f1 h1 u1 by (simp add: enc_pre_def same_hdr_def)
  have f2: "unat (i + 2) + series_units es \<le> unat limit"
    using assms(3) cost u1 by simp
  from encode_series_fits [OF p1 f2]
  obtain w2 where r2: "encode_series w1 es (i + 2) limit
      = Some (True, i + 2 + of_nat (series_units es), w2)"
    and h2: "same_hdr w1 w2"
    by auto
  have "i + 2 + of_nat (series_units es) = i + of_nat (unit_cost ch)"
    by (simp add: cost)
  then have "(ucast (i + 2 + of_nat (series_units es) - i) :: u8) = of_nat (unit_cost ch)"
    using u8_of_index_diff [OF small, of i] by simp
  moreover have "same_hdr w w2"
    using h1 h2 by (rule same_hdr_trans)
  ultimately show ?thesis
    using False valid r1 r2
    by (simp add: morse_encode_char_def Let_def es_def [symmetric])
qed

lemma morse_encode_char_over:
  assumes "enc_pre w i limit" "accepted ch" "unat limit < unat i + unit_cost ch"
  shows "\<exists>w'. morse_encode_char w ch i limit = Some (0, w') \<and> overflowed w w'"
proof (cases "toupper ch = CHR '' ''")
  case True
  then have "unat limit < unat i + unat (4 :: u8)"
    using assms(3) by (simp add: unit_cost_def)
  from morse_encode_bit_over [OF assms(1) this, of False]
  obtain w1 where "morse_encode_bit w False 4 i limit = Some (False, i, w1)"
    and "overflowed w w1"
    by auto
  then show ?thesis
    using True by (simp add: morse_encode_char_def)
next
  case False
  define es where "es = letters ! ((of_char (toupper ch) :: nat) - OFFSET)"
  have cost: "unit_cost ch = 2 + series_units es"
    using False by (simp add: unit_cost_def es_def)
  have valid: "\<not> ((of_char (toupper ch) :: nat) < OFFSET \<or> (of_char (toupper ch) :: nat) > MAX_CHAR)"
    using assms(2) False by (auto simp: accepted_def)
  show ?thesis
  proof (cases "unat i + unat (2 :: u8) \<le> unat limit")
    case False
    then have "unat limit < unat i + unat (2 :: u8)"
      by simp
    from morse_encode_bit_over [OF assms(1) this, of False]
    obtain w1 where "morse_encode_bit w False 2 i limit = Some (False, i, w1)"
      and "overflowed w w1"
      by auto
    then show ?thesis
      using \<open>toupper ch \<noteq> CHR '' ''\<close> valid by (simp add: morse_encode_char_def Let_def)
  next
    case f1: True
    from morse_encode_bit_fits [OF assms(1) f1, of False]
    obtain w1 where r1: "morse_encode_bit w False 2 i limit = Some (True, i + 2, w1)"
      and h1: "same_hdr w w1"
      by auto
    have u1: "unat (i + 2) = unat i + 2"
      using unat_index_add [of i limit 2] assms(1) by (simp add: enc_pre_def)
    have p1: "enc_pre w1 (i + 2) limit"
      using assms(1) f1 h1 u1 by (simp add: enc_pre_def same_hdr_def)
    have f2: "unat limit < unat (i + 2) + series_units es"
      using assms(3) cost u1 by simp
    from encode_series_over [OF p1 f2]
    obtain i2 w2 where r2: "encode_series w1 es (i + 2) limit = Some (False, i2, w2)"
      and h2: "overflowed w1 w2"
      by auto
    have "overflowed w w2"
      using h1 h2 by (rule same_hdr_overflowed)
    then show ?thesis
      using \<open>toupper ch \<noteq> CHR '' ''\<close> valid r1 r2
      by (simp add: morse_encode_char_def Let_def es_def [symmetric])
  qed
qed

lemma message_cost_Cons: "message_cost (c # cs) = unit_cost c + message_cost cs"
  by (simp add: message_cost_def)

lemma message_cost_Nil: "message_cost [] = 0"
  by (simp add: message_cost_def)

lemma encode_chars_step:
  assumes "enc_pre w i limit" "accepted c" "unat i + unit_cost c \<le> unat limit"
  shows "\<exists>w1. same_hdr w w1 \<and> enc_pre w1 (i + of_nat (unit_cost c)) limit \<and>
           unat (i + of_nat (unit_cost c)) = unat i + unit_cost c \<and>
           encode_chars w (c # cs) i limit = encode_chars w1 cs (i + of_nat (unit_cost c)) limit"
proof -
  from morse_encode_char_fits [OF assms]
  obtain w1 where r: "morse_encode_char w c i limit = Some (of_nat (unit_cost c), w1)"
    and h: "same_hdr w w1"
    by auto
  have b: "0 < unit_cost c" "unit_cost c < 256" "unit_cost c \<le> 255"
    using unit_cost_bounds [OF assms(2)] by simp_all
  have u: "unat (i + of_nat (unit_cost c)) = unat i + unit_cost c"
    using unat_index_add [of i limit "unit_cost c"] assms(1) b(3) by (simp add: enc_pre_def)
  have "enc_pre w1 (i + of_nat (unit_cost c)) limit"
    using assms(1,3) h u by (simp add: enc_pre_def same_hdr_def)
  moreover have "encode_chars w (c # cs) i limit
      = encode_chars w1 cs (i + of_nat (unit_cost c)) limit"
    using r u8_of_nat_nonzero [OF b(1,2)] u32_of_u8_of_nat [OF b(2)] by simp
  ultimately show ?thesis
    using h u by blast
qed

lemma encode_chars_fits:
  assumes "enc_pre w i limit" "\<forall>c\<in>set s. accepted c" "unat i + message_cost s \<le> unat limit"
  shows "\<exists>w'. encode_chars w s i limit = Some (True, i + of_nat (message_cost s), w') \<and>
           same_hdr w w'"
  using assms
proof (induction s arbitrary: w i)
  case Nil
  then show ?case
    by (simp add: message_cost_Nil same_hdr_refl)
next
  case (Cons c cs)
  have "accepted c" "unat i + unit_cost c \<le> unat limit"
    using Cons.prems by (simp_all add: message_cost_Cons)
  from encode_chars_step [OF Cons.prems(1) this, of cs]
  obtain w1 where h1: "same_hdr w w1"
    and p1: "enc_pre w1 (i + of_nat (unit_cost c)) limit"
    and u1: "unat (i + of_nat (unit_cost c)) = unat i + unit_cost c"
    and r1: "encode_chars w (c # cs) i limit
      = encode_chars w1 cs (i + of_nat (unit_cost c)) limit"
    by blast
  have "\<exists>w'. encode_chars w1 cs (i + of_nat (unit_cost c)) limit
      = Some (True, i + of_nat (unit_cost c) + of_nat (message_cost cs), w') \<and> same_hdr w1 w'"
    using Cons.prems u1 by (intro Cons.IH [OF p1]) (simp_all add: message_cost_Cons)
  then obtain w' where "encode_chars w1 cs (i + of_nat (unit_cost c)) limit
      = Some (True, i + of_nat (unit_cost c) + of_nat (message_cost cs), w')"
    and "same_hdr w1 w'"
    by blast
  then show ?case
    unfolding r1 using h1 by (auto simp: message_cost_Cons intro: same_hdr_trans)
qed

lemma encode_chars_over:
  assumes "enc_pre w i limit" "\<forall>c\<in>set s. accepted c" "unat limit < unat i + message_cost s"
  shows "\<exists>i' w'. encode_chars w s i limit = Some (False, i', w') \<and> overflowed w w'"
  using assms
proof (induction s arbitrary: w i)
  case Nil
  then show ?case
    by (simp add: message_cost_Nil enc_pre_def)
next
  case (Cons c cs)
  have acc: "accepted c"
    using Cons.prems by simp
  show ?case
  proof (cases "unat i + unit_cost c \<le> unat limit")
    case False
    then have "unat limit < unat i + unit_cost c"
      by simp
    from morse_encode_char_over [OF Cons.prems(1) acc this]
    show ?thesis
      by auto
  next
    case True
    from encode_chars_step [OF Cons.prems(1) acc True, of cs]
    obtain w1 where h1: "same_hdr w w1"
      and p1: "enc_pre w1 (i + of_nat (unit_cost c)) limit"
      and u1: "unat (i + of_nat (unit_cost c)) = unat i + unit_cost c"
      and r1: "encode_chars w (c # cs) i limit
        = encode_chars w1 cs (i + of_nat (unit_cost c)) limit"
      by blast
    have "\<exists>i' w'. encode_chars w1 cs (i + of_nat (unit_cost c)) limit = Some (False, i', w') \<and>
        overflowed w1 w'"
      using Cons.prems u1 by (intro Cons.IH [OF p1]) (simp_all add: message_cost_Cons)
    then show ?thesis
      unfolding r1 using h1 by (blast intro: same_hdr_overflowed)
  qed
qed

lemma encode_chars_append:
  "encode_chars w (p @ q) i limit =
    (case encode_chars w p i limit of
       None \<Rightarrow> None
     | Some (ok, i', w') \<Rightarrow> if ok then encode_chars w' q i' limit else Some (False, i', w'))"
  by (induction p arbitrary: w i) (auto split: option.splits)

lemma encode_chars_invalid:
  assumes "\<not> accepted c"
  shows "encode_chars w (c # rest) i limit
    = Some (False, i, w\<lparr>estderr := estderr w @ [Invalid_char c]\<rparr>)"
  by (simp add: morse_encode_char_invalid [OF assms])

lemma same_hdr_kept: "same_hdr w w1 \<Longrightarrow> hdr_kept_or_zero w1 w2 \<Longrightarrow> hdr_kept_or_zero w w2"
  by (auto simp: same_hdr_def hdr_kept_or_zero_def)

lemma overflowed_kept: "overflowed w w' \<Longrightarrow> hdr_kept_or_zero w w'"
  by (simp add: overflowed_def hdr_kept_or_zero_def)

lemma encode_chars_total:
  assumes "enc_pre w i limit"
  shows "\<exists>ok i' w'. encode_chars w s i limit = Some (ok, i', w') \<and>
           (if ok then same_hdr w w' \<and> enc_pre w' i' limit else hdr_kept_or_zero w w')"
  using assms
proof (induction s arbitrary: w i)
  case Nil
  then show ?case
    by (auto simp: same_hdr_refl)
next
  case (Cons c cs)
  show ?case
  proof (cases "accepted c")
    case False
    have "hdr_kept_or_zero w (w\<lparr>estderr := estderr w @ [Invalid_char c]\<rparr>)"
      by (simp add: hdr_kept_or_zero_def)
    then show ?thesis
      unfolding encode_chars_invalid [OF False] by auto
  next
    case acc: True
    show ?thesis
    proof (cases "unat i + unit_cost c \<le> unat limit")
      case False
      then have "unat limit < unat i + unit_cost c"
        by simp
      from morse_encode_char_over [OF Cons.prems acc this]
      obtain w1 where "morse_encode_char w c i limit = Some (0, w1)" and "overflowed w w1"
        by blast
      then have "encode_chars w (c # cs) i limit = Some (False, i, w1)"
        and "hdr_kept_or_zero w w1"
        by (simp_all add: overflowed_kept)
      then show ?thesis
        by auto
    next
      case True
      from encode_chars_step [OF Cons.prems acc True, of cs]
      obtain w1 where h1: "same_hdr w w1"
        and p1: "enc_pre w1 (i + of_nat (unit_cost c)) limit"
        and r1: "encode_chars w (c # cs) i limit
          = encode_chars w1 cs (i + of_nat (unit_cost c)) limit"
        by blast
      from Cons.IH [OF p1]
      obtain ok i' w' where r: "encode_chars w1 cs (i + of_nat (unit_cost c)) limit = Some (ok, i', w')"
        and h: "if ok then same_hdr w1 w' \<and> enc_pre w' i' limit else hdr_kept_or_zero w1 w'"
        by blast
      from h h1 have "if ok then same_hdr w w' \<and> enc_pre w' i' limit else hdr_kept_or_zero w w'"
        by (auto intro: same_hdr_trans same_hdr_kept split: if_splits)
      with r show ?thesis
        unfolding r1 by blast
    qed
  qed
qed

section \<open>The length header and the whole encoder\<close>

text \<open>
  \<open>morse_len\<close> reads back what \<open>morse_encode_len\<close> wrote, and depends on bytes 0 to 3
  only. The three outcomes of \<open>morse_encode\<close>: the message fits, it overflows, or a
  character is refused (then the header is as it was before the call).
\<close>

lemma masks:
  "(0xFF000000 :: u32) = push_bit 24 (mask 8)"
  "(0x00FF0000 :: u32) = push_bit 16 (mask 8)"
  "(0x0000FF00 :: u32) = push_bit 8 (mask 8)"
  "(0x000000FF :: u32) = mask 8"
  by (simp_all add: mask_eq_exp_minus_1)

lemma header_bytes_roundtrip:
  fixes n :: u32
  shows "push_bit 24 (ucast (ucast (drop_bit 24 (n AND 0xFF000000)) :: u8)) OR
        push_bit 16 (ucast (ucast (drop_bit 16 (n AND 0x00FF0000)) :: u8)) OR
        push_bit 8 (ucast (ucast (drop_bit 8 (n AND 0x0000FF00)) :: u8)) OR
        ucast (ucast (n AND 0x000000FF) :: u8) = n"
  unfolding masks
proof (rule bit_word_eqI)
  fix k :: nat
  assume "k < LENGTH(32)"
  then consider "k < 8" | "8 \<le> k" "k < 16" | "16 \<le> k" "k < 24" | "24 \<le> k" "k < 32"
    by fastforce
  then show "bit (push_bit 24 (ucast (ucast (drop_bit 24 (n AND push_bit 24 (mask 8))) :: u8)) OR
        push_bit 16 (ucast (ucast (drop_bit 16 (n AND push_bit 16 (mask 8))) :: u8)) OR
        push_bit 8 (ucast (ucast (drop_bit 8 (n AND push_bit 8 (mask 8))) :: u8)) OR
        ucast (ucast (n AND mask 8) :: u8) :: u32) k = bit n k"
    by cases (auto simp add: bit_simps)
qed

lemma morse_len_encode_len:
  assumes "4 \<le> length buf"
  shows "morse_len (morse_encode_len buf n) = n"
proof -
  have "0 < length buf" "1 < length buf" "2 < length buf" "3 < length buf"
    using assms by linarith+
  then show ?thesis
    using header_bytes_roundtrip [of n]
    by (simp add: morse_len_def morse_encode_len_def)
qed

lemma length_morse_encode_len: "length (morse_encode_len buf n) = length buf"
  by (simp add: morse_encode_len_def)

lemma drop4_morse_encode_len: "drop 4 (morse_encode_len buf n) = drop 4 buf"
  by (simp add: morse_encode_len_def drop_update_cancel)

lemma morse_len_take4:
  assumes "take 4 b = take 4 b'"
  shows "morse_len b = morse_len b'"
proof -
  have "b ! k = b' ! k" if "k < 4" for k
    using that nth_take [of k 4 b] nth_take [of k 4 b'] assms by simp
  then show ?thesis
    by (simp add: morse_len_def)
qed

lemma morse_len_zero_hdr:
  assumes "take 4 b = [0, 0, 0, 0]"
  shows "morse_len b = 0"
proof -
  have "b ! k = [0, 0, 0, 0 :: u8] ! k" if "k < 4" for k
    using that nth_take [of k 4 b] assms by simp
  from this [of 0] this [of 1] this [of 2] this [of 3] show ?thesis
    by (simp add: morse_len_def)
qed

lemma unat_bit_size:
  fixes sz :: u32
  assumes "unat sz \<le> 2 ^ 28"
  shows "unat (sz * 8) = 8 * unat sz"
proof -
  have "unat sz * unat (8 :: u32) < 2 ^ 32"
    using assms by simp
  then have "unat (sz * 8) = unat sz * unat (8 :: u32)"
    by (simp add: unat_mult_lem [THEN iffD1])
  then show ?thesis
    by simp
qed

lemma enc_pre_start:
  fixes sz :: u32
  assumes "\<not> sz < 4" "unat sz \<le> length (ebuf w)" "unat sz \<le> 2 ^ 28"
  shows "enc_pre w 32 (sz * 8)"
proof -
  have "4 \<le> unat sz"
    using assms(1) by (simp add: word_less_nat_alt)
  then show ?thesis
    using assms(2,3) by (simp add: enc_pre_def unat_bit_size [OF assms(3)])
qed

lemma accepted_space: "accepted (CHR '' '')"
  by (simp add: accepted_def toupper_def)

lemma message_cost_padding: "message_cost (replicate 3 (CHR '' '')) = 12"
  by (simp add: message_cost_def unit_cost_def toupper_def numeral_3_eq_3)

lemma of_char_less_256: "(of_char ch :: nat) < 256"
proof -
  have "(of_char ch :: nat) mod 256 < 256"
    by (rule mod_less_divisor) simp
  then show ?thesis
    by simp
qed

lemma alnum_or_space_accepted:
  assumes "alnum_or_space ch"
  shows "accepted ch"
proof -
  have "of_char (char_of (of_char ch - 32 :: nat)) = (of_char ch :: nat) - 32"
  proof -
    have "(of_char ch :: nat) - 32 < 256"
      using of_char_less_256 [of ch] by linarith
    then show ?thesis
      by simp
  qed
  then show ?thesis
    using assms
    by (auto simp: alnum_or_space_def accepted_def toupper_def OFFSET_def MAX_CHAR_def)
qed

lemma encode_chars_fits_index:
  assumes "enc_pre w i limit" "\<forall>c\<in>set s. accepted c" "unat i + message_cost s \<le> unat limit"
  shows "unat (i + of_nat (message_cost s)) = unat i + message_cost s"
proof -
  have "unat i + message_cost s < 2 ^ 32"
    using assms(1,3) by (simp add: enc_pre_def)
  then have "unat (of_nat (message_cost s) :: u32) = message_cost s"
    by (simp add: unat_of_nat)
  then show ?thesis
    using \<open>unat i + message_cost s < 2 ^ 32\<close> by (simp add: unat_add_lem [THEN iffD1])
qed

lemma morse_encode_fits:
  fixes sz :: u32
  assumes "\<not> sz < 4" "unat sz \<le> length (ebuf w)" "unat sz \<le> 2 ^ 28"
    and "\<forall>c\<in>set s. accepted c"
    and "32 + message_cost s + 12 \<le> 8 * unat sz"
  shows "\<exists>w'. morse_encode w s sz = Some (True, w') \<and>
           morse_len (ebuf w') = of_nat (message_cost s + 12) \<and>
           length (ebuf w') = length (ebuf w) \<and> estderr w' = estderr w"
proof -
  let ?limit = "sz * 8"
  have lim: "unat ?limit = 8 * unat sz"
    by (rule unat_bit_size [OF assms(3)])
  have p0: "enc_pre w 32 ?limit"
    by (rule enc_pre_start [OF assms(1-3)])
  have f0: "unat (32 :: u32) + message_cost s \<le> unat ?limit"
    using assms(5) lim by simp
  from encode_chars_fits [OF p0 assms(4) f0]
  obtain w1 where r1: "encode_chars w s 32 ?limit = Some (True, 32 + of_nat (message_cost s), w1)"
    and h1: "same_hdr w w1"
    by blast
  let ?i = "32 + of_nat (message_cost s) :: u32"
  have u1: "unat ?i = 32 + message_cost s"
    using encode_chars_fits_index [OF p0 assms(4) f0] by simp
  have p1: "enc_pre w1 ?i ?limit"
    using p0 h1 u1 f0 by (simp add: enc_pre_def same_hdr_def)
  have acc: "\<forall>c\<in>set (replicate 3 (CHR '' '')). accepted c"
    by (simp add: accepted_space)
  have f1: "unat ?i + message_cost (replicate 3 (CHR '' '')) \<le> unat ?limit"
    using assms(5) lim u1 by (simp add: message_cost_padding)
  from encode_chars_fits [OF p1 acc f1]
  obtain w2 where r2: "encode_chars w1 (replicate 3 (CHR '' '')) ?i ?limit
      = Some (True, ?i + 12, w2)"
    and h2: "same_hdr w1 w2"
    by (auto simp: message_cost_padding)
  have h: "same_hdr w w2"
    using h1 h2 by (rule same_hdr_trans)
  have "4 \<le> length (ebuf w2)"
    using p0 h by (simp add: enc_pre_def same_hdr_def)
  then have "morse_len (morse_encode_len (ebuf w2) (?i + 12 - 32)) = ?i + 12 - 32"
    by (rule morse_len_encode_len)
  moreover have "?i + 12 - 32 = of_nat (message_cost s + 12)"
    by simp
  ultimately show ?thesis
    using assms(1) r1 r2 h
    by (simp add: morse_encode_def Let_def same_hdr_def length_morse_encode_len)
qed

lemma morse_encode_over:
  fixes sz :: u32
  assumes "\<not> sz < 4" "unat sz \<le> length (ebuf w)" "unat sz \<le> 2 ^ 28"
    and "\<forall>c\<in>set p. accepted c"
    and "8 * unat sz < 32 + message_cost p \<or>
         (rest = [] \<and> 8 * unat sz < 32 + message_cost p + 12)"
  shows "\<exists>w'. morse_encode w (p @ rest) sz = Some (False, w') \<and> overflowed w w'"
proof -
  let ?limit = "sz * 8"
  have lim: "unat ?limit = 8 * unat sz"
    by (rule unat_bit_size [OF assms(3)])
  have p0: "enc_pre w 32 ?limit"
    by (rule enc_pre_start [OF assms(1-3)])
  show ?thesis
  proof (cases "8 * unat sz < 32 + message_cost p")
    case True
    then have "unat ?limit < unat (32 :: u32) + message_cost p"
      using lim by simp
    from encode_chars_over [OF p0 assms(4) this]
    obtain i' w' where "encode_chars w p 32 ?limit = Some (False, i', w')"
      and "overflowed w w'"
      by blast
    then show ?thesis
      using assms(1) by (simp add: morse_encode_def Let_def encode_chars_append)
  next
    case False
    with assms(5) have rest: "rest = []" and over: "8 * unat sz < 32 + message_cost p + 12"
      by simp_all
    have f0: "unat (32 :: u32) + message_cost p \<le> unat ?limit"
      using False lim by simp
    from encode_chars_fits [OF p0 assms(4) f0]
    obtain w1 where r1: "encode_chars w p 32 ?limit = Some (True, 32 + of_nat (message_cost p), w1)"
      and h1: "same_hdr w w1"
      by blast
    let ?i = "32 + of_nat (message_cost p) :: u32"
    have u1: "unat ?i = 32 + message_cost p"
      using encode_chars_fits_index [OF p0 assms(4) f0] by simp
    have p1: "enc_pre w1 ?i ?limit"
      using p0 h1 u1 f0 by (simp add: enc_pre_def same_hdr_def)
    have acc: "\<forall>c\<in>set (replicate 3 (CHR '' '')). accepted c"
      by (simp add: accepted_space)
    have f1: "unat ?limit < unat ?i + message_cost (replicate 3 (CHR '' ''))"
      using over lim u1 by (simp add: message_cost_padding)
    from encode_chars_over [OF p1 acc f1]
    obtain i2 w2 where r2: "encode_chars w1 (replicate 3 (CHR '' '')) ?i ?limit
        = Some (False, i2, w2)"
      and h2: "overflowed w1 w2"
      by blast
    have "overflowed w w2"
      using h1 h2 by (rule same_hdr_overflowed)
    then show ?thesis
      using assms(1) r1 r2 rest by (simp add: morse_encode_def Let_def)
  qed
qed

lemma morse_encode_invalid:
  fixes sz :: u32
  assumes "\<not> sz < 4" "unat sz \<le> length (ebuf w)" "unat sz \<le> 2 ^ 28"
    and "\<forall>c\<in>set p. accepted c" "\<not> accepted c"
    and "32 + message_cost p \<le> 8 * unat sz"
  shows "\<exists>w'. morse_encode w (p @ c # rest) sz
           = Some (False, w'\<lparr>estderr := estderr w @ [Invalid_char c]\<rparr>) \<and>
           encode_chars w p 32 (sz * 8) = Some (True, 32 + of_nat (message_cost p), w') \<and>
           same_hdr w w'"
proof -
  let ?limit = "sz * 8"
  have lim: "unat ?limit = 8 * unat sz"
    by (rule unat_bit_size [OF assms(3)])
  have p0: "enc_pre w 32 ?limit"
    by (rule enc_pre_start [OF assms(1-3)])
  have f0: "unat (32 :: u32) + message_cost p \<le> unat ?limit"
    using assms(6) lim by simp
  from encode_chars_fits [OF p0 assms(4) f0]
  obtain w1 where r1: "encode_chars w p 32 ?limit = Some (True, 32 + of_nat (message_cost p), w1)"
    and h1: "same_hdr w w1"
    by blast
  have "estderr w1 = estderr w"
    using h1 by (simp add: same_hdr_def)
  then have "morse_encode w (p @ c # rest) sz
      = Some (False, w1\<lparr>estderr := estderr w @ [Invalid_char c]\<rparr>)"
    using assms(1) r1
    by (simp add: morse_encode_def Let_def encode_chars_append
        morse_encode_char_invalid [OF assms(5)])
  with r1 h1 show ?thesis
    by blast
qed

lemma morse_encode_total:
  fixes sz :: u32
  assumes "\<not> sz < 4" "unat sz \<le> length (ebuf w)" "unat sz \<le> 2 ^ 28"
  shows "\<exists>ok w'. morse_encode w s sz = Some (ok, w') \<and>
           length (ebuf w') = length (ebuf w) \<and>
           (if ok then unat (morse_len (ebuf w')) + 32 \<le> 8 * unat sz
            else hdr_kept_or_zero w w')"
proof -
  let ?limit = "sz * 8"
  have lim: "unat ?limit = 8 * unat sz"
    by (rule unat_bit_size [OF assms(3)])
  have p0: "enc_pre w 32 ?limit"
    by (rule enc_pre_start [OF assms(1-3)])
  from encode_chars_total [OF p0, of s]
  obtain ok1 i1 w1 where r1: "encode_chars w s 32 ?limit = Some (ok1, i1, w1)"
    and h1: "if ok1 then same_hdr w w1 \<and> enc_pre w1 i1 ?limit else hdr_kept_or_zero w w1"
    by blast
  show ?thesis
  proof (cases ok1)
    case False
    with r1 have "morse_encode w s sz = Some (False, w1)"
      using assms(1) by (simp add: morse_encode_def Let_def)
    moreover from False h1 have "hdr_kept_or_zero w w1"
      by simp
    ultimately show ?thesis
      by (intro exI [of _ False] exI [of _ w1]) (simp add: hdr_kept_or_zero_def)
  next
    case True
    with h1 have s1: "same_hdr w w1" and p1: "enc_pre w1 i1 ?limit"
      by simp_all
    from encode_chars_total [OF p1, of "replicate 3 (CHR '' '')"]
    obtain ok2 i2 w2 where r2: "encode_chars w1 (replicate 3 (CHR '' '')) i1 ?limit = Some (ok2, i2, w2)"
      and h2: "if ok2 then same_hdr w1 w2 \<and> enc_pre w2 i2 ?limit else hdr_kept_or_zero w1 w2"
      by blast
    show ?thesis
    proof (cases ok2)
      case False
      with h2 s1 have "hdr_kept_or_zero w w2"
        by (auto intro: same_hdr_kept)
      moreover from r1 r2 True False have "morse_encode w s sz = Some (False, w2)"
        using assms(1) by (simp add: morse_encode_def Let_def)
      ultimately show ?thesis
        by (intro exI [of _ False] exI [of _ w2]) (simp add: hdr_kept_or_zero_def)
    next
      case ok: True
      with h2 have s2: "same_hdr w1 w2" and p2: "enc_pre w2 i2 ?limit"
        by simp_all
      have len: "length (ebuf w2) = length (ebuf w)"
        using s1 s2 by (simp add: same_hdr_def)
      have "4 \<le> length (ebuf w2)"
        using p2 by (simp add: enc_pre_def)
      then have "morse_len (morse_encode_len (ebuf w2) (i2 - 32)) = i2 - 32"
        by (rule morse_len_encode_len)
      moreover have "unat (i2 - 32) = unat i2 - 32"
        using p2 by (simp add: enc_pre_def unat_sub word_le_nat_alt)
      moreover have "unat i2 \<le> 8 * unat sz" "32 \<le> unat i2"
        using p2 lim by (simp_all add: enc_pre_def)
      moreover from r1 r2 True ok have "morse_encode w s sz
          = Some (True, w2\<lparr>ebuf := morse_encode_len (ebuf w2) (i2 - 32)\<rparr>)"
        using assms(1) by (simp add: morse_encode_def Let_def)
      ultimately show ?thesis
        using len
        by (intro exI [of _ True] exI [of _ "w2\<lparr>ebuf := morse_encode_len (ebuf w2) (i2 - 32)\<rparr>"])
          (simp add: length_morse_encode_len)
    qed
  qed
qed

section \<open>The state of the engine\<close>

text \<open>
  The invariant holds initially and every entry point keeps it, so every reachable
  state has it; \<open>morse\<close> always returns in such a state. A call of \<open>morse_update\<close> that
  is not idle takes one of three paths: inside the pass, replay, or switch.
\<close>

lemma deref_store_same: "deref (store p b st) p = b"
  by (cases p) simp_all

lemma deref_store_other: "p \<noteq> q \<Longrightarrow> deref (store p b st) q = deref st q"
  by (cases p; cases q) simp_all

lemma store_fields:
  "morse_live_buf (store p b st) = morse_live_buf st"
  "morse_next_buf (store p b st) = morse_next_buf st"
  "morse_repeat (store p b st) = morse_repeat st"
  "morse_repeat_next (store p b st) = morse_repeat_next st"
  "morse_elapsed_time (store p b st) = morse_elapsed_time st"
  "stderr_out (store p b st) = stderr_out st"
  "cb_calls (store p b st) = cb_calls st"
  by (cases p; simp)+

lemma morse_wf_deref:
  "morse_wf st \<longleftrightarrow>
     (\<forall>p. length (deref st p) = unat MORSE_MAX_LEN \<and>
          unat (morse_len (deref st p)) + 32 \<le> 8 * unat MORSE_MAX_LEN) \<and>
     morse_live_buf st \<noteq> morse_next_buf st"
proof -
  have "(\<forall>p. P p) \<longleftrightarrow> P Buf1 \<and> P Buf2" for P
    by (metis buf_ptr.exhaust)
  then show ?thesis
    by (auto simp: morse_wf_def)
qed

lemma morse_wf_init: "morse_wf morse_init"
  by (simp add: morse_wf_def morse_init_def MORSE_MAX_LEN_def morse_len_def)

lemma morse_wf_store:
  assumes "morse_wf st" "length b = unat MORSE_MAX_LEN"
    and "unat (morse_len b) + 32 \<le> 8 * unat MORSE_MAX_LEN"
  shows "morse_wf (store p b st)"
  using assms by (cases p) (simp_all add: morse_wf_def)

lemma morse_result:
  assumes "morse_wf st"
  shows "\<exists>b e. morse s r st
            = Some ((store (morse_next_buf st) b st)
                \<lparr>morse_repeat := False, morse_repeat_next := r, stderr_out := e\<rparr>) \<and>
           length b = unat MORSE_MAX_LEN \<and>
           unat (morse_len b) + 32 \<le> 8 * unat MORSE_MAX_LEN"
proof -
  let ?w = "\<lparr>ebuf = deref st (morse_next_buf st), estderr = stderr_out st\<rparr>"
  have len: "length (ebuf ?w) = unat MORSE_MAX_LEN"
    and hdr: "unat (morse_len (ebuf ?w)) + 32 \<le> 8 * unat MORSE_MAX_LEN"
    using assms by (simp_all add: morse_wf_deref)
  have "\<not> MORSE_MAX_LEN < 4" "unat MORSE_MAX_LEN \<le> length (ebuf ?w)"
    "unat MORSE_MAX_LEN \<le> 2 ^ 28"
    using len by (simp_all add: MORSE_MAX_LEN_def)
  from morse_encode_total [OF this, of s]
  obtain ok w' where r: "morse_encode ?w s MORSE_MAX_LEN = Some (ok, w')"
    and l: "length (ebuf w') = length (ebuf ?w)"
    and h: "if ok then unat (morse_len (ebuf w')) + 32 \<le> 8 * unat MORSE_MAX_LEN
            else hdr_kept_or_zero ?w w'"
    by blast
  have "unat (morse_len (ebuf w')) + 32 \<le> 8 * unat MORSE_MAX_LEN"
  proof (cases ok)
    case True
    with h show ?thesis
      by simp
  next
    case False
    with h have "take 4 (ebuf w') = take 4 (ebuf ?w) \<or> take 4 (ebuf w') = [0, 0, 0, 0]"
      by (simp add: hdr_kept_or_zero_def)
    then have "morse_len (ebuf w') = morse_len (ebuf ?w) \<or> morse_len (ebuf w') = 0"
      using morse_len_take4 [of "ebuf w'" "ebuf ?w"] morse_len_zero_hdr [of "ebuf w'"]
      by blast
    with hdr show ?thesis
      by auto
  qed
  moreover have "morse s r st
      = Some ((store (morse_next_buf st) (ebuf w') st)
          \<lparr>morse_repeat := False, morse_repeat_next := r, stderr_out := estderr w'\<rparr>)"
    using r by (simp add: morse_def)
  ultimately show ?thesis
    using l len by auto
qed

lemma morse_wf_flags:
  "morse_wf (st\<lparr>morse_repeat := a\<rparr>) = morse_wf st"
  "morse_wf (st\<lparr>morse_repeat_next := b\<rparr>) = morse_wf st"
  "morse_wf (st\<lparr>stderr_out := e\<rparr>) = morse_wf st"
  "morse_wf (st\<lparr>cb_calls := c\<rparr>) = morse_wf st"
  "morse_wf (st\<lparr>morse_elapsed_time := t\<rparr>) = morse_wf st"
  by (simp_all add: morse_wf_def)

lemma morse_wf_morse:
  assumes "morse_wf st" "morse s r st = Some st'"
  shows "morse_wf st'"
  using morse_result [OF assms(1), of s r] assms
  by (auto simp: morse_wf_flags intro: morse_wf_store)

lemma morse_switch_buf_eq:
  assumes "morse_live_buf st \<noteq> morse_next_buf st"
  shows "morse_switch_buf st
    = (store (morse_live_buf st) (morse_encode_len (deref st (morse_live_buf st)) 0) st)
        \<lparr>morse_live_buf := morse_next_buf st, morse_next_buf := morse_live_buf st,
         morse_repeat := morse_repeat_next st, morse_repeat_next := False\<rparr>"
  using assms
  by (cases "morse_live_buf st"; cases "morse_next_buf st")
     (simp_all add: morse_switch_buf_def Let_def)

lemma morse_wf_encode_len_zero:
  assumes "morse_wf st"
  shows "morse_wf (store p (morse_encode_len (deref st p) 0) st)"
proof (rule morse_wf_store [OF assms])
  have l: "length (deref st p) = unat MORSE_MAX_LEN"
    using assms by (simp add: morse_wf_deref)
  then show "length (morse_encode_len (deref st p) 0) = unat MORSE_MAX_LEN"
    by (simp add: length_morse_encode_len)
  have "4 \<le> length (deref st p)"
    using l by (simp add: MORSE_MAX_LEN_def)
  then have "morse_len (morse_encode_len (deref st p) 0) = 0"
    by (rule morse_len_encode_len)
  then show "unat (morse_len (morse_encode_len (deref st p) 0)) + 32 \<le> 8 * unat MORSE_MAX_LEN"
    by (simp add: MORSE_MAX_LEN_def)
qed

lemma morse_wf_switch_buf:
  assumes "morse_wf st"
  shows "morse_wf (morse_switch_buf st)"
proof -
  have ne: "morse_live_buf st \<noteq> morse_next_buf st"
    using assms by (simp add: morse_wf_def)
  have "morse_wf (store (morse_live_buf st) (morse_encode_len (deref st (morse_live_buf st)) 0) st)"
    by (rule morse_wf_encode_len_zero [OF assms])
  then show ?thesis
    unfolding morse_switch_buf_eq [OF ne] using ne
    by (auto simp: morse_wf_def store_fields)
qed

lemma morse_wf_stop: "morse_wf st \<Longrightarrow> morse_wf (morse_stop st)"
  by (simp add: morse_stop_def morse_wf_flags)

lemma morse_wf_interrupt: "morse_wf st \<Longrightarrow> morse_wf (morse_interrupt st)"
  by (simp add: morse_interrupt_def morse_wf_flags morse_wf_encode_len_zero)

lemma morse_wf_update:
  assumes "morse_wf st" "morse_update ms st = Some st'"
  shows "morse_wf st'"
  using assms
  by (auto simp: morse_update_def Let_def morse_wf_flags morse_wf_switch_buf
      split: if_splits option.splits)

lemma reachable_wf: "reachable st \<Longrightarrow> morse_wf st"
  by (induction rule: reachable.induct)
     (auto intro: morse_wf_init morse_wf_morse morse_wf_update morse_wf_stop morse_wf_interrupt)

lemma unat_tick_index: "unat (tick_index ms st) = unat (morse_elapsed_time st + ms) div 60"
  by (simp add: tick_index_def morse_dot_duration_def unat_div)

lemma unat_tick_index_add: "unat (tick_index ms st + 32) = unat (tick_index ms st) + 32"
proof -
  have "unat (morse_elapsed_time st + ms) < 2 ^ 32"
    using unsigned_less [of "morse_elapsed_time st + ms", where ?'a = nat] by simp
  then have "unat (tick_index ms st) + unat (32 :: u32) < 2 ^ 32"
    unfolding unat_tick_index by simp
  then show ?thesis
    by (simp add: unat_add_lem [THEN iffD1])
qed

lemma morse_bit_tick:
  "morse_bit buf (tick_index ms st) =
    (if unat (tick_index ms st) + 32 < 8 * length buf
     then Some (bit (buf ! ((unat (tick_index ms st) + 32) div 8))
                 ((unat (tick_index ms st) + 32) mod 8))
     else None)"
proof -
  have "(unat (tick_index ms st) + 32) div 8 < length buf
      \<longleftrightarrow> unat (tick_index ms st) + 32 < 8 * length buf"
    by linarith
  then show ?thesis
    by (simp add: morse_bit_def Let_def unat_div unat_mod unat_tick_index_add)
qed

lemma morse_update_idle: "idle st \<Longrightarrow> morse_update ms st = Some st"
  by (simp add: morse_update_def idle_def)

lemma morse_update_within:
  assumes "tick_index ms st < morse_len (deref st (morse_live_buf st))"
  shows "morse_update ms st =
    map_option (\<lambda>b. st\<lparr>morse_elapsed_time := morse_elapsed_time st + ms,
                         cb_calls := cb_calls st @ [b]\<rparr>)
      (morse_bit (deref st (morse_live_buf st)) (tick_index ms st))"
proof -
  have "morse_len (deref st (morse_live_buf st)) \<noteq> 0"
    using assms by auto
  moreover have "\<not> morse_len (deref st (morse_live_buf st)) \<le> tick_index ms st"
    using assms by simp
  ultimately show ?thesis
    by (cases "morse_live_buf st")
       (simp_all add: morse_update_def Let_def tick_index_def split: option.splits)
qed

lemma morse_update_replay:
  assumes "\<not> idle st" "morse_len (deref st (morse_live_buf st)) \<le> tick_index ms st"
    and "morse_repeat st"
  shows "morse_update ms st =
    map_option (\<lambda>b. st\<lparr>morse_elapsed_time := 0, cb_calls := cb_calls st @ [b]\<rparr>)
      (morse_bit (deref st (morse_live_buf st)) (tick_index ms st))"
  using assms
  by (cases "morse_live_buf st")
     (auto simp: morse_update_def Let_def tick_index_def idle_def split: option.splits)

lemma morse_update_switch:
  assumes "\<not> idle st" "morse_len (deref st (morse_live_buf st)) \<le> tick_index ms st"
    and "\<not> morse_repeat st" "morse_live_buf st \<noteq> morse_next_buf st"
  shows "morse_update ms st =
    map_option (\<lambda>b. (morse_switch_buf st)\<lparr>morse_elapsed_time := 0, cb_calls := cb_calls st @ [b]\<rparr>)
      (morse_bit (deref st (morse_next_buf st)) (tick_index ms st))"
proof -
  let ?st1 = "st\<lparr>morse_elapsed_time := morse_elapsed_time st + ms\<rparr>"
  have ne: "morse_live_buf ?st1 \<noteq> morse_next_buf ?st1"
    using assms(4) by simp
  have sw: "(morse_switch_buf ?st1)\<lparr>morse_elapsed_time := 0\<rparr>
      = (morse_switch_buf st)\<lparr>morse_elapsed_time := 0\<rparr>"
    unfolding morse_switch_buf_eq [OF ne] morse_switch_buf_eq [OF assms(4)]
    by (cases "morse_live_buf st") simp_all
  have live: "deref ((morse_switch_buf st)\<lparr>morse_elapsed_time := 0\<rparr>)
        (morse_live_buf ((morse_switch_buf st)\<lparr>morse_elapsed_time := 0\<rparr>))
      = deref st (morse_next_buf st)"
    unfolding morse_switch_buf_eq [OF assms(4)] using assms(4)
    by (cases "morse_live_buf st"; cases "morse_next_buf st") simp_all
  have calls: "cb_calls ((morse_switch_buf st)\<lparr>morse_elapsed_time := 0\<rparr>) = cb_calls st"
    unfolding morse_switch_buf_eq [OF assms(4)] by (simp add: store_fields)
  have "morse_update ms st =
      (case morse_bit (deref ((morse_switch_buf ?st1)\<lparr>morse_elapsed_time := 0\<rparr>)
              (morse_live_buf ((morse_switch_buf ?st1)\<lparr>morse_elapsed_time := 0\<rparr>)))
            (tick_index ms st) of
         None \<Rightarrow> None
       | Some b \<Rightarrow> Some (((morse_switch_buf ?st1)\<lparr>morse_elapsed_time := 0\<rparr>)
           \<lparr>cb_calls := cb_calls ((morse_switch_buf ?st1)\<lparr>morse_elapsed_time := 0\<rparr>) @ [b]\<rparr>))"
    using assms(1-3)
    by (cases "morse_live_buf st")
       (auto simp: morse_update_def Let_def tick_index_def idle_def)
  then show ?thesis
    unfolding sw live calls by (simp split: option.splits)
qed

section \<open>Letter case, overflow and the gap of the table\<close>

lemma of_char_char_of_small: "n < 256 \<Longrightarrow> (of_char (char_of (n :: nat)) :: nat) = n"
  by simp

lemma toupper_fix:
  assumes "\<not> (97 \<le> (of_char ch :: nat) \<and> (of_char ch :: nat) \<le> 122)"
  shows "toupper ch = ch"
  using assms by (auto simp: toupper_def)

lemma toupper_idem: "toupper (toupper ch) = toupper ch"
proof (cases "97 \<le> (of_char ch :: nat) \<and> (of_char ch :: nat) \<le> 122")
  case True
  then have t: "toupper ch = char_of (of_char ch - 32 :: nat)"
    by (simp add: toupper_def)
  have "(of_char (char_of (of_char ch - 32 :: nat)) :: nat) = of_char ch - 32"
    using True by (intro of_char_char_of_small) linarith
  moreover have "\<not> 97 \<le> (of_char ch :: nat) - 32"
    using True by linarith
  ultimately have "toupper (char_of (of_char ch - 32 :: nat)) = char_of (of_char ch - 32 :: nat)"
    by (intro toupper_fix) simp
  then show ?thesis
    by (simp add: t)
next
  case False
  then have "toupper ch = ch"
    by (rule toupper_fix)
  then show ?thesis
    by simp
qed

lemma not_accepted_toupper:
  assumes "\<not> accepted ch"
  shows "toupper ch = ch"
proof (rule ccontr)
  assume "toupper ch \<noteq> ch"
  then have r: "97 \<le> (of_char ch :: nat)" "(of_char ch :: nat) \<le> 122"
    by (auto simp: toupper_def split: if_splits)
  then have "(of_char (char_of (of_char ch - 32 :: nat)) :: nat) = of_char ch - 32"
    by (intro of_char_char_of_small) linarith
  moreover have "48 \<le> (of_char ch :: nat) - 32" "(of_char ch :: nat) - 32 \<le> 90"
    using r by linarith+
  ultimately have "accepted ch"
    using r by (simp add: accepted_def toupper_def OFFSET_def MAX_CHAR_def)
  with assms show False
    by simp
qed

lemma morse_encode_char_toupper:
  "morse_encode_char w (toupper ch) i limit = morse_encode_char w ch i limit"
proof (cases "accepted ch")
  case True
  then have "\<not> ((of_char (toupper ch) :: nat) < OFFSET \<or> (of_char (toupper ch) :: nat) > MAX_CHAR)"
    if "toupper ch \<noteq> CHR '' ''"
    using that by (auto simp: accepted_def)
  then show ?thesis
    by (simp add: morse_encode_char_def Let_def toupper_idem)
next
  case False
  then show ?thesis
    by (simp add: not_accepted_toupper)
qed

lemma encode_chars_toupper:
  "encode_chars w (map toupper s) i limit = encode_chars w s i limit"
  by (induction s arbitrary: w i) (auto simp: morse_encode_char_toupper split: option.splits)

lemma morse_encode_toupper: "morse_encode w (map toupper s) sz = morse_encode w s sz"
  by (simp add: morse_encode_def encode_chars_toupper)

lemma message_cost_replicate: "message_cost (replicate n c) = n * unit_cost c"
  by (induction n) (simp_all add: message_cost_Nil message_cost_Cons)

lemma unit_cost_zero_digit: "unit_cost (CHR ''0'') = 22"
  by (simp add: unit_cost_def toupper_def OFFSET_def letters_def series_units_def
      symbol_units_def)

lemma accepted_zero_digit: "accepted (CHR ''0'')"
  by (simp add: accepted_def toupper_def OFFSET_def MAX_CHAR_def)

lemma gap_entries:
  assumes "10 \<le> k" "k \<le> 16"
  shows "letters ! k = []"
proof -
  from assms have "k = 10 \<or> k = 11 \<or> k = 12 \<or> k = 13 \<or> k = 14 \<or> k = 15 \<or> k = 16"
    by linarith
  then show ?thesis
    by (auto simp: letters_def)
qed

lemma gap_character:
  assumes "58 \<le> (of_char ch :: nat)" "(of_char ch :: nat) \<le> 64"
  shows "toupper ch = ch" "accepted ch" "toupper ch \<noteq> CHR '' ''"
    "letters ! ((of_char (toupper ch) :: nat) - OFFSET) = []" "unit_cost ch = 2"
proof -
  show t: "toupper ch = ch"
    using assms by (intro toupper_fix) simp
  show a: "accepted ch"
    using assms by (simp add: accepted_def t OFFSET_def MAX_CHAR_def)
  show s: "toupper ch \<noteq> CHR '' ''"
    using assms unfolding t by auto
  show e: "letters ! ((of_char (toupper ch) :: nat) - OFFSET) = []"
    unfolding t using assms by (intro gap_entries) (simp_all add: OFFSET_def)
  show "unit_cost ch = 2"
    using s e by (simp add: unit_cost_def series_units_Nil)
qed

section \<open>Ticks, submission and interruption\<close>

lemma morse_encode_over_prefix:
  fixes sz :: u32
  assumes "\<not> sz < 4" "unat sz \<le> length (ebuf w)" "unat sz \<le> 2 ^ 28"
    and "\<forall>c\<in>set p. accepted c" "8 * unat sz < 32 + message_cost p"
  shows "morse_encode w (p @ rest) sz = morse_encode w p sz"
proof -
  have "enc_pre w 32 (sz * 8)"
    by (rule enc_pre_start [OF assms(1-3)])
  moreover have "unat (sz * 8) < unat (32 :: u32) + message_cost p"
    using assms(5) unat_bit_size [OF assms(3)] by simp
  ultimately obtain i' w' where "encode_chars w p 32 (sz * 8) = Some (False, i', w')"
    using encode_chars_over [OF _ assms(4)] by blast
  then show ?thesis
    using assms(1) by (simp add: morse_encode_def Let_def encode_chars_append)
qed

lemma deref_fields:
  "deref (st\<lparr>morse_repeat := a\<rparr>) p = deref st p"
  "deref (st\<lparr>morse_repeat_next := a\<rparr>) p = deref st p"
  "deref (st\<lparr>morse_elapsed_time := t\<rparr>) p = deref st p"
  "deref (st\<lparr>stderr_out := e\<rparr>) p = deref st p"
  "deref (st\<lparr>cb_calls := c\<rparr>) p = deref st p"
  "deref (st\<lparr>morse_live_buf := q\<rparr>) p = deref st p"
  "deref (st\<lparr>morse_next_buf := q\<rparr>) p = deref st p"
  by (cases p; simp)+

lemma within_pass_cb_calls:
  "within_pass mss (st\<lparr>cb_calls := c\<rparr>) = within_pass mss st"
proof (induction mss arbitrary: st)
  case Nil
  show ?case
    by simp
next
  case (Cons ms mss)
  have "within_pass mss (st\<lparr>cb_calls := c, morse_elapsed_time := t\<rparr>)
      = within_pass mss (st\<lparr>morse_elapsed_time := t\<rparr>)" for t
  proof -
    have "st\<lparr>cb_calls := c, morse_elapsed_time := t\<rparr>
        = st\<lparr>morse_elapsed_time := t, cb_calls := c\<rparr>"
      by (cases st) simp
    then show ?thesis
      using Cons.IH [of "st\<lparr>morse_elapsed_time := t\<rparr>"] by (simp only:)
  qed
  then show ?case
    by (simp add: tick_index_def deref_fields)
qed

lemma ticks_within_pass:
  assumes "morse_wf a" "morse_wf b" "morse_live_buf b = morse_live_buf a"
    and "deref b (morse_live_buf a) = deref a (morse_live_buf a)"
    and "morse_elapsed_time b = morse_elapsed_time a" "cb_calls b = cb_calls a"
    and "within_pass mss a"
  shows "\<exists>t t'. ticks mss a = Some t \<and> ticks mss b = Some t' \<and> cb_calls t' = cb_calls t \<and>
           length (cb_calls t) = length (cb_calls a) + length mss"
  using assms
proof (induction mss arbitrary: a b)
  case Nil
  then show ?case
    by simp
next
  case (Cons ms mss)
  let ?live = "deref a (morse_live_buf a)"
  have within: "tick_index ms a < morse_len ?live"
    and rest: "within_pass mss (a\<lparr>morse_elapsed_time := morse_elapsed_time a + ms\<rparr>)"
    using Cons.prems(7) by simp_all
  have len: "length ?live = unat MORSE_MAX_LEN"
    and hdr: "unat (morse_len ?live) + 32 \<le> 8 * unat MORSE_MAX_LEN"
    using Cons.prems(1) by (simp_all add: morse_wf_deref)
  have "unat (tick_index ms a) < unat (morse_len ?live)"
    using within by (simp add: word_less_nat_alt)
  then have inb: "unat (tick_index ms a) + 32 < 8 * length ?live"
    using hdr len by simp
  define v where "v = bit (?live ! ((unat (tick_index ms a) + 32) div 8))
      ((unat (tick_index ms a) + 32) mod 8)"
  have bit: "morse_bit ?live (tick_index ms a) = Some v"
    using inb by (simp add: morse_bit_tick v_def)
  define a1 where "a1 = a\<lparr>morse_elapsed_time := morse_elapsed_time a + ms,
      cb_calls := cb_calls a @ [v]\<rparr>"
  define b1 where "b1 = b\<lparr>morse_elapsed_time := morse_elapsed_time b + ms,
      cb_calls := cb_calls b @ [v]\<rparr>"
  have ua: "morse_update ms a = Some a1"
    using morse_update_within [OF within] bit by (simp add: a1_def)
  have tb: "tick_index ms b = tick_index ms a"
    using Cons.prems(5) by (simp add: tick_index_def)
  have "tick_index ms b < morse_len (deref b (morse_live_buf b))"
    using within Cons.prems(3,4) tb by simp
  from morse_update_within [OF this]
  have ub: "morse_update ms b = Some b1"
    using bit Cons.prems(3,4) tb by (simp add: b1_def)
  have "\<exists>t t'. ticks mss a1 = Some t \<and> ticks mss b1 = Some t' \<and> cb_calls t' = cb_calls t \<and>
      length (cb_calls t) = length (cb_calls a1) + length mss"
  proof (rule Cons.IH)
    show "morse_wf a1" "morse_wf b1"
      using Cons.prems(1,2) by (simp_all add: a1_def b1_def morse_wf_flags)
    show "morse_live_buf b1 = morse_live_buf a1"
      using Cons.prems(3) by (simp add: a1_def b1_def)
    show "deref b1 (morse_live_buf a1) = deref a1 (morse_live_buf a1)"
      using Cons.prems(4) by (simp add: a1_def b1_def deref_fields)
    show "morse_elapsed_time b1 = morse_elapsed_time a1" "cb_calls b1 = cb_calls a1"
      using Cons.prems(5,6) by (simp_all add: a1_def b1_def)
    show "within_pass mss a1"
      using rest by (simp add: a1_def within_pass_cb_calls)
  qed
  then show ?case
    using ua ub by (auto simp: a1_def)
qed

lemma morse_wf_example_playing: "morse_wf example_playing"
  by (simp add: morse_wf_def example_playing_def MORSE_MAX_LEN_def morse_len_def)

lemma morse_wf_example_queued: "morse_wf example_queued"
  by (simp add: morse_wf_def example_queued_def MORSE_MAX_LEN_def morse_len_def)

lemma idle_init: "idle morse_init"
  by (simp add: idle_def morse_init_def morse_len_def MORSE_MAX_LEN_def)

lemma not_idle_example_playing: "\<not> idle example_playing"
  by (simp add: idle_def example_playing_def morse_len_def)

lemma tick_index_example_playing: "tick_index 60 example_playing = 3"
  by (simp add: tick_index_def example_playing_def morse_dot_duration_def)

lemma not_idle_example_queued: "\<not> idle example_queued"
  by (simp add: idle_def example_queued_def morse_len_def)

lemma tick_index_example_queued: "tick_index 60 example_queued = 16"
  by (simp add: tick_index_def example_queued_def morse_dot_duration_def)

lemma live_len_example_queued:
  "morse_len (deref example_queued (morse_live_buf example_queued)) = 16"
  by (simp add: example_queued_def morse_len_def)

lemma example_playing_invalid:
  "map_option stderr_out (morse ''!'' False example_playing) = Some [Invalid_char (CHR ''!'')]"
  by code_simp

lemma tick_index_example_playing_boundary: "tick_index 840 example_playing = 16"
  by (simp add: tick_index_def example_playing_def morse_dot_duration_def)

lemma live_len_example_playing:
  "morse_len (deref example_playing (morse_live_buf example_playing)) = 16"
  by (simp add: example_playing_def morse_len_def)

lemma within_pass_example_playing: "within_pass [60, 60] example_playing"
  by (simp add: tick_index_def example_playing_def morse_dot_duration_def morse_len_def)

lemma morse_E_from_init: "morse ''E'' False morse_init = Some example_submitted"
  by code_simp

lemma reachable_example_submitted: "reachable example_submitted"
  using reachable_init morse_E_from_init by (rule reachable_morse)

lemma reachable_ticks:
  assumes "reachable st" "ticks mss st = Some st'"
  shows "reachable st'"
  using assms
proof (induction mss arbitrary: st)
  case Nil
  then show ?case
    by simp
next
  case (Cons ms mss)
  then show ?case
    by (auto split: option.splits intro: reachable_update)
qed

lemma morse_E_repeat_from_init:
  "Option.bind (morse ''E'' True morse_init) (ticks [0, 60, 60]) = Some example_playing"
  by code_simp

lemma reachable_example_playing: "reachable example_playing"
proof -
  from morse_E_repeat_from_init
  obtain st where "morse ''E'' True morse_init = Some st" "ticks [0, 60, 60] st = Some example_playing"
    by (auto simp: Option.bind_eq_Some_conv)
  then show ?thesis
    using reachable_init by (blast intro: reachable_morse reachable_ticks)
qed

section \<open>The claims\<close>

lemma message_cost_SOS: "message_cost ''SOS'' = 30"
  by (simp add: message_cost_def unit_cost_def toupper_def OFFSET_def letters_def
      series_units_def symbol_units_def)

text \<open>
  Claim C1. For an input made of the characters \<open>0-9\<close>, \<open>A-Z\<close>, \<open>a-z\<close> and the space
  whose encoding fits the bit capacity of the buffer (the 32 bits of the header, the
  units of the characters and the 12 units of the three trailing spaces), \<open>morse_encode\<close>
  succeeds, prints nothing, and the length it writes to the header is the sum of the
  unit costs of the characters plus 12.
\<close>

theorem morse_encode_bit_length:
  fixes sz :: u32
  assumes "\<forall>c\<in>set s. alnum_or_space c"
    and "\<not> sz < 4" "unat sz \<le> length (ebuf w)" "unat sz \<le> 2 ^ 28"
    and "32 + message_cost s + 12 \<le> 8 * unat sz"
  shows "\<exists>w'. morse_encode w s sz = Some (True, w') \<and>
           unat (morse_len (ebuf w')) = message_cost s + 12 \<and>
           length (ebuf w') = length (ebuf w) \<and> estderr w' = estderr w"
proof -
  have acc: "\<forall>c\<in>set s. accepted c"
    using assms(1) by (simp add: alnum_or_space_accepted)
  from morse_encode_fits [OF assms(2-4) acc assms(5)]
  obtain w' where r: "morse_encode w s sz = Some (True, w')"
    and l: "morse_len (ebuf w') = of_nat (message_cost s + 12)"
    and rest: "length (ebuf w') = length (ebuf w)" "estderr w' = estderr w"
    by blast
  have "message_cost s + 12 < 2 ^ 32"
    using assms(4,5) by simp
  moreover have "unat (of_nat (message_cost s + 12) :: u32)
      = (message_cost s + 12) mod 2 ^ LENGTH(32)"
    by (rule unat_of_nat)
  ultimately have "unat (of_nat (message_cost s + 12) :: u32) = message_cost s + 12"
    by simp
  with r l rest show ?thesis
    by (simp del: of_nat_add)
qed

theorem morse_encode_bit_length_witness:
  "\<exists>w'. morse_encode \<lparr>ebuf = replicate 1024 0, estderr = []\<rparr> ''SOS'' MORSE_MAX_LEN
           = Some (True, w') \<and>
         unat (morse_len (ebuf w')) = 42 \<and> length (ebuf w') = 1024 \<and> estderr w' = []"
  using morse_encode_bit_length
    [of "''SOS''" MORSE_MAX_LEN "\<lparr>ebuf = replicate 1024 0, estderr = []\<rparr>"]
  by (simp add: message_cost_SOS alnum_or_space_def MORSE_MAX_LEN_def)

text \<open>
  Claim C8. Encoding is case-insensitive: two strings that are equal up to letter case
  (they agree after \<open>toupper\<close>) give the same result of \<open>morse_encode\<close> on the same
  buffer: the same success value, the same bytes (length header and bits) and the
  same diagnostics.
\<close>

theorem morse_encode_case_insensitive:
  assumes "map toupper s1 = map toupper s2"
  shows "morse_encode w s1 sz = morse_encode w s2 sz"
proof -
  have "morse_encode w s1 sz = morse_encode w (map toupper s1) sz"
    by (simp add: morse_encode_toupper)
  also have "\<dots> = morse_encode w (map toupper s2) sz"
    by (simp add: assms)
  also have "\<dots> = morse_encode w s2 sz"
    by (simp add: morse_encode_toupper)
  finally show ?thesis .
qed

theorem morse_encode_case_insensitive_witness:
  "morse_encode \<lparr>ebuf = replicate 1024 0, estderr = []\<rparr> ''sos'' MORSE_MAX_LEN
    = morse_encode \<lparr>ebuf = replicate 1024 0, estderr = []\<rparr> ''SOS'' MORSE_MAX_LEN"
  by (rule morse_encode_case_insensitive) code_simp

text \<open>
  Claim C5. When the emission of the input exceeds the bit capacity of the buffer (in
  the characters of \<open>p\<close>, none of which is refused, or in the three trailing spaces
  when the whole input is \<open>p\<close>), \<open>morse_encode\<close> returns failure, bytes 0 to 3 of the
  buffer are zero, so that the length reads 0, and the overflow diagnostic is printed.
  It stops at the overflow: when that lies in \<open>p\<close>, what follows \<open>p\<close> changes nothing.
\<close>

theorem morse_encode_overflow:
  fixes sz :: u32
  assumes "\<not> sz < 4" "unat sz \<le> length (ebuf w)" "unat sz \<le> 2 ^ 28"
    and "\<forall>c\<in>set p. accepted c"
    and "8 * unat sz < 32 + message_cost p \<or>
         (rest = [] \<and> 8 * unat sz < 32 + message_cost p + 12)"
  shows "\<exists>w'. morse_encode w (p @ rest) sz = Some (False, w') \<and>
           take 4 (ebuf w') = [0, 0, 0, 0] \<and> morse_len (ebuf w') = 0 \<and>
           estderr w' = estderr w @ [Size_limit_reached] \<and>
           length (ebuf w') = length (ebuf w) \<and>
           (8 * unat sz < 32 + message_cost p \<longrightarrow>
              morse_encode w (p @ rest) sz = morse_encode w p sz)"
proof -
  from morse_encode_over [OF assms]
  obtain w' where "morse_encode w (p @ rest) sz = Some (False, w')" and "overflowed w w'"
    by blast
  moreover have "morse_encode w (p @ rest) sz = morse_encode w p sz"
    if "8 * unat sz < 32 + message_cost p"
    by (rule morse_encode_over_prefix [OF assms(1-4) that])
  ultimately show ?thesis
    by (auto simp: overflowed_def morse_len_zero_hdr)
qed

theorem morse_encode_overflow_witness:
  "\<exists>w'. morse_encode \<lparr>ebuf = replicate 1024 0, estderr = []\<rparr>
            (replicate 400 (CHR ''0'') @ []) MORSE_MAX_LEN = Some (False, w') \<and>
         take 4 (ebuf w') = [0, 0, 0, 0] \<and> morse_len (ebuf w') = 0 \<and>
         estderr w' = [] @ [Size_limit_reached] \<and> length (ebuf w') = 1024"
  using morse_encode_overflow
    [of MORSE_MAX_LEN "\<lparr>ebuf = replicate 1024 0, estderr = []\<rparr>" "replicate 400 (CHR ''0'')" "[]"]
  by (simp add: MORSE_MAX_LEN_def message_cost_replicate unit_cost_zero_digit
      accepted_zero_digit)

text \<open>
  Claim C3, at a concrete input. The claim says that an invalid character leaves the
  length header of the target buffer at 0 whatever it held before. After
  \<open>morse("E", false)\<close> the next buffer holds the 16 units of \<open>E\<close>; \<open>morse("T!", false)\<close>
  then writes the bits of \<open>T\<close> over them, stops at \<open>!\<close> with the diagnostic, and the
  header still reads 16: only the overflow path of \<open>morse_encode_bit\<close> zeroes it.
\<close>

theorem morse_invalid_char_keeps_header:
  "map_option (\<lambda>st. (morse_len (deref st (morse_next_buf st)),
                      take 8 (deref st (morse_next_buf st)), stderr_out st))
     (Option.bind (morse ''E'' False morse_init) (morse ''T!'' False))
   = Some (16, [0, 0, 0, 16, 56, 0, 0, 0], [Invalid_char (CHR ''!'')])"
  by code_simp

text \<open>
  Claim C4, as stated, fails: the character \<open>:\<close> (code 58) indexes the empty entry 10
  of the table and is not refused by the range validation; it is encoded as 2 units
  and nothing is printed.
\<close>

theorem gap_character_accepted:
  "letters ! ((of_char (toupper (CHR '':'')) :: nat) - OFFSET) = [] \<and>
   map_option (\<lambda>(n, w). (n, estderr w))
     (morse_encode_char \<lparr>ebuf = replicate 1024 0, estderr = []\<rparr> (CHR '':'') 32 8192)
   = Some (2, [])"
  by code_simp

text \<open>
  Claim C4, amended. The range validation made before the lookup keeps every lookup
  inside the 43 entries of the table, and a character it refuses is not looked up:
  the call returns 0 with the diagnostic. It does not refuse the characters with the
  codes 58 to 64: they pass, the empty entry is looked up, and the character is
  encoded as its 2 leading off units.
\<close>

theorem table_lookup_in_range:
  "(accepted ch \<and> toupper ch \<noteq> CHR '' '' \<longrightarrow>
      (of_char (toupper ch) :: nat) - OFFSET < length letters) \<and>
   (\<not> accepted ch \<longrightarrow>
      morse_encode_char w ch i limit
        = Some (0, w\<lparr>estderr := estderr w @ [Invalid_char ch]\<rparr>)) \<and>
   (58 \<le> (of_char ch :: nat) \<and> (of_char ch :: nat) \<le> 64 \<longrightarrow>
      accepted ch \<and> toupper ch \<noteq> CHR '' '' \<and>
      letters ! ((of_char (toupper ch) :: nat) - OFFSET) = [] \<and>
      (enc_pre w i limit \<and> unat i + 2 \<le> unat limit \<longrightarrow>
         (\<exists>w'. morse_encode_char w ch i limit = Some (2, w') \<and> same_hdr w w')))"
proof (intro conjI impI)
  assume "accepted ch \<and> toupper ch \<noteq> CHR '' ''"
  then show "(of_char (toupper ch) :: nat) - OFFSET < length letters"
    using accepted_index [of ch] by (simp add: length_letters)
next
  assume "\<not> accepted ch"
  then show "morse_encode_char w ch i limit
      = Some (0, w\<lparr>estderr := estderr w @ [Invalid_char ch]\<rparr>)"
    by (rule morse_encode_char_invalid)
next
  assume g: "58 \<le> (of_char ch :: nat) \<and> (of_char ch :: nat) \<le> 64"
  then show "accepted ch" "toupper ch \<noteq> CHR '' ''"
    "letters ! ((of_char (toupper ch) :: nat) - OFFSET) = []"
    using gap_character [of ch] by simp_all
  assume p: "enc_pre w i limit \<and> unat i + 2 \<le> unat limit"
  have a: "accepted ch" and c: "unit_cost ch = 2"
    using g gap_character [of ch] by simp_all
  have "unat i + unit_cost ch \<le> unat limit"
    using p c by simp
  from morse_encode_char_fits [OF _ a this] p c
  show "\<exists>w'. morse_encode_char w ch i limit = Some (2, w') \<and> same_hdr w w'"
    by simp
qed

theorem table_lookup_in_range_witness:
  "(of_char (toupper (CHR '':'')) :: nat) - OFFSET < length letters \<and>
   letters ! ((of_char (toupper (CHR '':'')) :: nat) - OFFSET) = [] \<and>
   (\<exists>w'. morse_encode_char \<lparr>ebuf = replicate 1024 0, estderr = []\<rparr> (CHR '':'') 32 8192
            = Some (2, w') \<and>
          same_hdr \<lparr>ebuf = replicate 1024 0, estderr = []\<rparr> w')"
  using table_lookup_in_range
    [of "CHR '':''" "\<lparr>ebuf = replicate 1024 0, estderr = []\<rparr>" 32 8192]
  by (simp add: enc_pre_def)

text \<open>
  Claim C2, as stated, fails. After \<open>morse("E", false)\<close> at program start the live
  buffer is empty and \<open>morse_repeat\<close> is false; a call \<open>morse_update(489600)\<close> computes
  the bit index 8160, at the live length or past it, and switches the buffers; the
  bit it then reads is bit 8192 of the array, in byte 1024, outside the 1024 bytes of
  the new live buffer: no bit of its content is passed to \<open>morse_cb\<close>.
\<close>

theorem boundary_read_outside_array:
  "reachable example_submitted \<and> \<not> idle example_submitted \<and>
   \<not> morse_repeat example_submitted \<and>
   morse_len (deref example_submitted (morse_live_buf example_submitted))
     \<le> tick_index 489600 example_submitted \<and>
   tick_index 489600 example_submitted = 8160 \<and>
   morse_bit (deref example_submitted (morse_next_buf example_submitted)) 8160 = None \<and>
   morse_update 489600 example_submitted = None"
proof -
  have "\<not> idle example_submitted \<and> \<not> morse_repeat example_submitted \<and>
   morse_len (deref example_submitted (morse_live_buf example_submitted))
     \<le> tick_index 489600 example_submitted \<and>
   tick_index 489600 example_submitted = 8160 \<and>
   morse_bit (deref example_submitted (morse_next_buf example_submitted)) 8160 = None \<and>
   morse_update 489600 example_submitted = None"
    by code_simp
  with reachable_example_submitted show ?thesis
    by blast
qed

text \<open>
  Claim C2, amended. When a call of \<open>morse_update\<close> that is not idle finds the bit
  index at or past the live length with \<open>morse_repeat\<close> false, and the bit index plus
  the 32 bits of the header lies inside the array, the two pointers exchange their
  arrays and the bit passed to \<open>morse_cb\<close> in that same call is the bit of the new live
  buffer (the old next buffer, unchanged) at the index computed before the switch,
  not the bit at index 0. The flags move as \<open>morse_switch_buf\<close> says, the elapsed time
  is reset and the new next buffer is emptied. For a larger bit index the read of
  \<open>morse_bit\<close> leaves the array (no result in the model).
\<close>

theorem morse_update_boundary_swap:
  assumes "morse_wf st" "\<not> idle st" "\<not> morse_repeat st"
    and "morse_len (deref st (morse_live_buf st)) \<le> tick_index ms st"
  shows "if unat (tick_index ms st) + 32 < 8 * unat MORSE_MAX_LEN
         then \<exists>st' b. morse_update ms st = Some st' \<and>
                morse_live_buf st' = morse_next_buf st \<and>
                morse_next_buf st' = morse_live_buf st \<and>
                deref st' (morse_live_buf st') = deref st (morse_next_buf st) \<and>
                morse_bit (deref st' (morse_live_buf st')) (tick_index ms st) = Some b \<and>
                b = bit (deref st' (morse_live_buf st') ! ((unat (tick_index ms st) + 32) div 8))
                      ((unat (tick_index ms st) + 32) mod 8) \<and>
                cb_calls st' = cb_calls st @ [b] \<and>
                morse_repeat st' = morse_repeat_next st \<and> \<not> morse_repeat_next st' \<and>
                morse_elapsed_time st' = 0 \<and>
                morse_len (deref st' (morse_next_buf st')) = 0
         else morse_update ms st = None"
proof -
  have ne: "morse_live_buf st \<noteq> morse_next_buf st"
    and len: "length (deref st p) = unat MORSE_MAX_LEN" for p
    using assms(1) by (simp_all add: morse_wf_deref)
  have "4 \<le> length (deref st (morse_live_buf st))"
    by (simp add: len MORSE_MAX_LEN_def)
  then have z: "morse_len (morse_encode_len (deref st (morse_live_buf st)) 0) = 0"
    by (rule morse_len_encode_len)
  have up: "morse_update ms st =
      map_option (\<lambda>b. (morse_switch_buf st)\<lparr>morse_elapsed_time := 0, cb_calls := cb_calls st @ [b]\<rparr>)
        (morse_bit (deref st (morse_next_buf st)) (tick_index ms st))"
    by (rule morse_update_switch [OF assms(2,4,3) ne])
  show ?thesis
    unfolding up morse_switch_buf_eq [OF ne] using ne z
    by (simp add: morse_bit_tick len deref_fields store_fields deref_store_same
        deref_store_other)
qed

theorem morse_update_boundary_swap_witness:
  "\<exists>st'. morse_update 60 example_queued = Some st' \<and>
     morse_live_buf st' = Buf1 \<and> morse_next_buf st' = Buf2 \<and>
     cb_calls st' = [True] \<and>
     morse_bit (deref st' (morse_live_buf st')) 0 = Some False"
proof -
  have "\<not> morse_repeat example_queued"
    by (simp add: example_queued_def)
  moreover have "morse_len (deref example_queued (morse_live_buf example_queued))
      \<le> tick_index 60 example_queued"
    by (simp add: live_len_example_queued tick_index_example_queued)
  ultimately have "if unat (tick_index 60 example_queued) + 32 < 8 * unat MORSE_MAX_LEN
      then \<exists>st' b. morse_update 60 example_queued = Some st' \<and>
        morse_live_buf st' = morse_next_buf example_queued \<and>
        morse_next_buf st' = morse_live_buf example_queued \<and>
        deref st' (morse_live_buf st') = deref example_queued (morse_next_buf example_queued) \<and>
        morse_bit (deref st' (morse_live_buf st')) (tick_index 60 example_queued) = Some b \<and>
        b = bit (deref st' (morse_live_buf st') ! ((unat (tick_index 60 example_queued) + 32) div 8))
              ((unat (tick_index 60 example_queued) + 32) mod 8) \<and>
        cb_calls st' = cb_calls example_queued @ [b] \<and>
        morse_repeat st' = morse_repeat_next example_queued \<and> \<not> morse_repeat_next st' \<and>
        morse_elapsed_time st' = 0 \<and>
        morse_len (deref st' (morse_next_buf st')) = 0
      else morse_update 60 example_queued = None"
    (is "if ?c then ?ex else _")
    by (rule morse_update_boundary_swap [OF morse_wf_example_queued not_idle_example_queued])
  moreover have ?c
    by (simp add: tick_index_example_queued MORSE_MAX_LEN_def)
  ultimately have ?ex
    by (simp only: if_True)
  then obtain st' b where u: "morse_update 60 example_queued = Some st'"
    and p: "morse_live_buf st' = morse_next_buf example_queued"
      "morse_next_buf st' = morse_live_buf example_queued"
    and l: "deref st' (morse_live_buf st') = deref example_queued (morse_next_buf example_queued)"
    and b: "b = bit (deref st' (morse_live_buf st') ! ((unat (tick_index 60 example_queued) + 32) div 8))
              ((unat (tick_index 60 example_queued) + 32) mod 8)"
    and c: "cb_calls st' = cb_calls example_queued @ [b]"
    by blast
  have q: "morse_next_buf example_queued = Buf1" "morse_live_buf example_queued = Buf2"
    "deref example_queued Buf1 = [0, 0, 0, 30, 56, 142, 3] @ replicate 1017 0"
    "cb_calls example_queued = []"
    by (simp_all add: example_queued_def)
  have "b = True"
    unfolding b l q tick_index_example_queued by simp
  moreover have "morse_bit (deref st' (morse_live_buf st')) 0 = Some False"
    unfolding l q by (simp add: morse_bit_def)
  ultimately show ?thesis
    using u p c q by simp
qed

text \<open>
  Claim C6, as stated, fails. With \<open>E\<close> live and repeating, 120 ms into the pass, the
  buffers are not both empty, and a call \<open>morse_update(489600)\<close> computes the bit index
  8162 and reads \<open>morse_bit\<close> outside the array before it reaches \<open>morse_cb\<close>: the call
  has no defined result and no call of \<open>morse_cb\<close> is established.
\<close>

theorem replay_tick_without_call:
  "reachable example_playing \<and> \<not> idle example_playing \<and>
   tick_index 489600 example_playing = 8162 \<and>
   morse_update 489600 example_playing = None"
proof -
  have "\<not> idle example_playing \<and> tick_index 489600 example_playing = 8162 \<and>
      morse_update 489600 example_playing = None"
    by code_simp
  with reachable_example_playing show ?thesis
    by blast
qed

text \<open>
  Claim C6, amended. A call of \<open>morse_update\<close> that finds both buffers with length 0
  makes no call of \<open>morse_cb\<close> and leaves the whole state as it was (the elapsed time
  is not accumulated). Any other call whose bit index plus the 32 bits of the header
  lies inside the array calls \<open>morse_cb\<close> exactly once. For a larger bit index the read
  of \<open>morse_bit\<close> leaves the array (no result in the model).
\<close>

theorem morse_update_sink_calls:
  assumes "morse_wf st"
  shows "(idle st \<longrightarrow> morse_update ms st = Some st) \<and>
         (\<not> idle st \<longrightarrow>
            (if unat (tick_index ms st) + 32 < 8 * unat MORSE_MAX_LEN
             then \<exists>st' b. morse_update ms st = Some st' \<and> cb_calls st' = cb_calls st @ [b]
             else morse_update ms st = None))"
proof (intro conjI impI)
  assume "idle st"
  then show "morse_update ms st = Some st"
    by (rule morse_update_idle)
next
  assume ni: "\<not> idle st"
  have ne: "morse_live_buf st \<noteq> morse_next_buf st"
    and len: "length (deref st p) = unat MORSE_MAX_LEN" for p
    using assms by (simp_all add: morse_wf_deref)
  have calls: "cb_calls (morse_switch_buf st) = cb_calls st"
    unfolding morse_switch_buf_eq [OF ne] by (simp add: store_fields)
  consider (within) "tick_index ms st < morse_len (deref st (morse_live_buf st))"
    | (replay) "morse_len (deref st (morse_live_buf st)) \<le> tick_index ms st" "morse_repeat st"
    | (switch) "morse_len (deref st (morse_live_buf st)) \<le> tick_index ms st" "\<not> morse_repeat st"
    by fastforce
  then show "if unat (tick_index ms st) + 32 < 8 * unat MORSE_MAX_LEN
      then \<exists>st' b. morse_update ms st = Some st' \<and> cb_calls st' = cb_calls st @ [b]
      else morse_update ms st = None"
  proof cases
    case within
    then show ?thesis
      by (simp add: morse_update_within morse_bit_tick len)
  next
    case replay
    then show ?thesis
      by (simp add: morse_update_replay [OF ni] morse_bit_tick len)
  next
    case switch
    then show ?thesis
      by (simp add: morse_update_switch [OF ni _ _ ne] morse_bit_tick len calls)
  qed
qed

theorem morse_update_sink_calls_witness:
  "morse_update 60 morse_init = Some morse_init \<and>
   (\<exists>st' b. morse_update 60 example_playing = Some st' \<and>
      cb_calls st' = cb_calls example_playing @ [b])"
  using morse_update_sink_calls [OF morse_wf_init, of 60]
    morse_update_sink_calls [OF morse_wf_example_playing, of 60]
  by (simp add: idle_init not_idle_example_playing tick_index_example_playing
      MORSE_MAX_LEN_def)

text \<open>
  Claim C7. \<open>morse\<close> writes into the next buffer only: the live buffer, the two
  pointers, the elapsed time and the calls made so far are as before. Hence for any
  sequence of \<open>morse_update\<close> calls that stay before the boundary of the live message,
  the bits passed to \<open>morse_cb\<close> are the same with and without the submission.
\<close>

theorem morse_keeps_live_buffer:
  assumes "morse_wf st"
  shows "\<exists>st'. morse s r st = Some st' \<and>
           morse_live_buf st' = morse_live_buf st \<and> morse_next_buf st' = morse_next_buf st \<and>
           deref st' (morse_live_buf st) = deref st (morse_live_buf st) \<and>
           morse_elapsed_time st' = morse_elapsed_time st \<and> cb_calls st' = cb_calls st \<and>
           (\<forall>mss. within_pass mss st \<longrightarrow>
              (\<exists>t t'. ticks mss st = Some t \<and> ticks mss st' = Some t' \<and>
                 cb_calls t' = cb_calls t \<and>
                 length (cb_calls t) = length (cb_calls st) + length mss))"
proof -
  from morse_result [OF assms, of s r]
  obtain b e where m: "morse s r st
      = Some ((store (morse_next_buf st) b st)
          \<lparr>morse_repeat := False, morse_repeat_next := r, stderr_out := e\<rparr>)"
    by blast
  define st' where "st' = (store (morse_next_buf st) b st)
      \<lparr>morse_repeat := False, morse_repeat_next := r, stderr_out := e\<rparr>"
  have m': "morse s r st = Some st'"
    using m by (simp add: st'_def)
  have wf: "morse_wf st'"
    by (rule morse_wf_morse [OF assms m'])
  have ne: "morse_next_buf st \<noteq> morse_live_buf st"
    using assms by (auto simp: morse_wf_def)
  have frame: "morse_live_buf st' = morse_live_buf st" "morse_next_buf st' = morse_next_buf st"
    "deref st' (morse_live_buf st) = deref st (morse_live_buf st)"
    "morse_elapsed_time st' = morse_elapsed_time st" "cb_calls st' = cb_calls st"
    using ne by (simp_all add: st'_def store_fields deref_fields deref_store_other)
  have "\<exists>t t'. ticks mss st = Some t \<and> ticks mss st' = Some t' \<and> cb_calls t' = cb_calls t \<and>
      length (cb_calls t) = length (cb_calls st) + length mss"
    if "within_pass mss st" for mss
    by (rule ticks_within_pass [OF assms wf frame(1,3,4,5) that])
  with m' frame show ?thesis
    by blast
qed

theorem morse_keeps_live_buffer_witness:
  "\<exists>st' t t'. morse ''B'' False example_playing = Some st' \<and>
     deref st' Buf2 = deref example_playing Buf2 \<and>
     ticks [60, 60] example_playing = Some t \<and> ticks [60, 60] st' = Some t' \<and>
     cb_calls t' = cb_calls t \<and> length (cb_calls t) = 5"
proof -
  from morse_keeps_live_buffer [OF morse_wf_example_playing, of "''B''" False]
  obtain st' where m: "morse ''B'' False example_playing = Some st'"
    and l: "deref st' (morse_live_buf example_playing)
        = deref example_playing (morse_live_buf example_playing)"
    and t: "\<forall>mss. within_pass mss example_playing \<longrightarrow>
        (\<exists>t t'. ticks mss example_playing = Some t \<and> ticks mss st' = Some t' \<and>
           cb_calls t' = cb_calls t \<and>
           length (cb_calls t) = length (cb_calls example_playing) + length mss)"
    by blast
  from t within_pass_example_playing
  obtain t t' where "ticks [60, 60] example_playing = Some t" "ticks [60, 60] st' = Some t'"
    "cb_calls t' = cb_calls t"
    "length (cb_calls t) = length (cb_calls example_playing) + length [60, 60 :: u32]"
    by blast
  with m l show ?thesis
    by (simp add: example_playing_def)
qed

text \<open>
  Claim C9. Whatever the text, also one that \<open>morse_encode\<close> refuses, \<open>morse\<close> sets
  \<open>morse_repeat_next\<close> to its argument and clears \<open>morse_repeat\<close>; the live message and
  the elapsed time stay. So at the next boundary of the live message
  \<open>morse_update\<close> switches to the next buffer instead of replaying.
\<close>

theorem morse_sets_repeat_flags:
  assumes "morse_wf st"
  shows "\<exists>st'. morse s r st = Some st' \<and> morse_repeat_next st' = r \<and> \<not> morse_repeat st' \<and>
           morse_live_buf st' = morse_live_buf st \<and>
           deref st' (morse_live_buf st) = deref st (morse_live_buf st) \<and>
           morse_elapsed_time st' = morse_elapsed_time st \<and>
           (\<forall>ms. \<not> idle st' \<and>
                 morse_len (deref st' (morse_live_buf st')) \<le> tick_index ms st' \<and>
                 unat (tick_index ms st') + 32 < 8 * unat MORSE_MAX_LEN \<longrightarrow>
                 (\<exists>t. morse_update ms st' = Some t \<and>
                      morse_live_buf t = morse_next_buf st \<and> morse_repeat t = r))"
proof -
  from morse_result [OF assms, of s r]
  obtain b e where m: "morse s r st
      = Some ((store (morse_next_buf st) b st)
          \<lparr>morse_repeat := False, morse_repeat_next := r, stderr_out := e\<rparr>)"
    by blast
  define st' where "st' = (store (morse_next_buf st) b st)
      \<lparr>morse_repeat := False, morse_repeat_next := r, stderr_out := e\<rparr>"
  have m': "morse s r st = Some st'"
    using m by (simp add: st'_def)
  have wf: "morse_wf st'"
    by (rule morse_wf_morse [OF assms m'])
  have flags: "morse_repeat_next st' = r" "\<not> morse_repeat st'"
    "morse_next_buf st' = morse_next_buf st" "morse_live_buf st' = morse_live_buf st"
    "morse_elapsed_time st' = morse_elapsed_time st"
    by (simp_all add: st'_def store_fields)
  have "morse_next_buf st \<noteq> morse_live_buf st"
    using assms by (auto simp: morse_wf_def)
  then have live: "deref st' (morse_live_buf st) = deref st (morse_live_buf st)"
    by (simp add: st'_def deref_fields deref_store_other)
  have ne: "morse_live_buf st' \<noteq> morse_next_buf st'"
    and len: "length (deref st' p) = unat MORSE_MAX_LEN" for p
    using wf by (simp_all add: morse_wf_deref)
  have "\<exists>t. morse_update ms st' = Some t \<and> morse_live_buf t = morse_next_buf st \<and>
          morse_repeat t = r"
    if "\<not> idle st'" "morse_len (deref st' (morse_live_buf st')) \<le> tick_index ms st'"
      "unat (tick_index ms st') + 32 < 8 * unat MORSE_MAX_LEN"
    for ms
    unfolding morse_update_switch [OF that(1,2) flags(2) ne] morse_switch_buf_eq [OF ne]
    using that(3) flags by (simp add: morse_bit_tick len store_fields)
  with m' flags live show ?thesis
    by blast
qed

theorem morse_sets_repeat_flags_witness:
  "\<exists>st'. morse ''!'' False example_playing = Some st' \<and>
     stderr_out st' = [Invalid_char (CHR ''!'')] \<and>
     morse_repeat example_playing \<and> \<not> morse_repeat st' \<and> morse_repeat_next st' = False \<and>
     (\<exists>t. morse_update 840 st' = Some t \<and> morse_live_buf t = Buf1 \<and> \<not> morse_repeat t)"
proof -
  from morse_sets_repeat_flags [OF morse_wf_example_playing, of "''!''" False]
  obtain st' where m: "morse ''!'' False example_playing = Some st'"
    and f: "morse_repeat_next st' = False" "\<not> morse_repeat st'"
    and l: "morse_live_buf st' = morse_live_buf example_playing"
      "deref st' (morse_live_buf example_playing)
        = deref example_playing (morse_live_buf example_playing)"
      "morse_elapsed_time st' = morse_elapsed_time example_playing"
    and t: "\<forall>ms. \<not> idle st' \<and>
        morse_len (deref st' (morse_live_buf st')) \<le> tick_index ms st' \<and>
        unat (tick_index ms st') + 32 < 8 * unat MORSE_MAX_LEN \<longrightarrow>
        (\<exists>t. morse_update ms st' = Some t \<and>
           morse_live_buf t = morse_next_buf example_playing \<and> morse_repeat t = False)"
    by blast
  have len: "morse_len (deref st' (morse_live_buf st')) = 16"
    using l live_len_example_playing by simp
  then have "\<not> idle st'"
    by (simp add: idle_def)
  moreover have ti: "tick_index 840 st' = 16"
    using l(3) tick_index_example_playing_boundary by (simp add: tick_index_def)
  ultimately have "\<exists>t. morse_update 840 st' = Some t \<and>
      morse_live_buf t = morse_next_buf example_playing \<and> morse_repeat t = False"
    using t len by (simp add: MORSE_MAX_LEN_def)
  moreover have "stderr_out st' = [Invalid_char (CHR ''!'')]"
    using example_playing_invalid m by simp
  ultimately show ?thesis
    using m f by (simp add: example_playing_def)
qed

text \<open>
  Claim C10. \<open>morse_interrupt\<close> changes only the length header of the live buffer, which
  it zeroes, and the repeat flag, which it clears: the bytes of the live buffer after
  the header, the next buffer, \<open>morse_repeat_next\<close>, the two pointers, the outputs and
  \<open>morse_elapsed_time\<close> stay as they were. The elapsed time is not reset: the next
  call of \<open>morse_update\<close> computes its bit index from it, and, when the next buffer
  holds a message, switches to it and reads the bit at that index.
\<close>

theorem morse_interrupt_frame:
  assumes "morse_wf st"
  shows "morse_len (deref (morse_interrupt st) (morse_live_buf st)) = 0 \<and>
         \<not> morse_repeat (morse_interrupt st) \<and>
         drop 4 (deref (morse_interrupt st) (morse_live_buf st))
           = drop 4 (deref st (morse_live_buf st)) \<and>
         length (deref (morse_interrupt st) (morse_live_buf st))
           = length (deref st (morse_live_buf st)) \<and>
         deref (morse_interrupt st) (morse_next_buf st) = deref st (morse_next_buf st) \<and>
         morse_elapsed_time (morse_interrupt st) = morse_elapsed_time st \<and>
         morse_repeat_next (morse_interrupt st) = morse_repeat_next st \<and>
         morse_live_buf (morse_interrupt st) = morse_live_buf st \<and>
         morse_next_buf (morse_interrupt st) = morse_next_buf st \<and>
         stderr_out (morse_interrupt st) = stderr_out st \<and>
         cb_calls (morse_interrupt st) = cb_calls st \<and>
         tick_index ms (morse_interrupt st) = tick_index ms st \<and>
         (\<not> idle (morse_interrupt st) \<longrightarrow>
            morse_update ms (morse_interrupt st)
              = map_option
                  (\<lambda>b. (morse_switch_buf (morse_interrupt st))
                         \<lparr>morse_elapsed_time := 0, cb_calls := cb_calls st @ [b]\<rparr>)
                  (morse_bit (deref st (morse_next_buf st))
                     ((morse_elapsed_time st + ms) div morse_dot_duration)))"
proof -
  have ne: "morse_live_buf st \<noteq> morse_next_buf st"
    using assms by (simp add: morse_wf_def)
  have "length (deref st (morse_live_buf st)) = unat MORSE_MAX_LEN"
    using assms by (simp add: morse_wf_deref)
  then have "4 \<le> length (deref st (morse_live_buf st))"
    by (simp add: MORSE_MAX_LEN_def)
  then have "morse_len (morse_encode_len (deref st (morse_live_buf st)) 0) = 0"
    by (rule morse_len_encode_len)
  then have frame: "morse_len (deref (morse_interrupt st) (morse_live_buf st)) = 0 \<and>
         \<not> morse_repeat (morse_interrupt st) \<and>
         drop 4 (deref (morse_interrupt st) (morse_live_buf st))
           = drop 4 (deref st (morse_live_buf st)) \<and>
         length (deref (morse_interrupt st) (morse_live_buf st))
           = length (deref st (morse_live_buf st)) \<and>
         deref (morse_interrupt st) (morse_next_buf st) = deref st (morse_next_buf st) \<and>
         morse_elapsed_time (morse_interrupt st) = morse_elapsed_time st \<and>
         morse_repeat_next (morse_interrupt st) = morse_repeat_next st \<and>
         morse_live_buf (morse_interrupt st) = morse_live_buf st \<and>
         morse_next_buf (morse_interrupt st) = morse_next_buf st \<and>
         stderr_out (morse_interrupt st) = stderr_out st \<and>
         cb_calls (morse_interrupt st) = cb_calls st \<and>
         tick_index ms (morse_interrupt st) = tick_index ms st"
    using ne
    by (simp add: morse_interrupt_def deref_store_same deref_store_other store_fields
        deref_fields drop4_morse_encode_len length_morse_encode_len tick_index_def)
  have "morse_update ms (morse_interrupt st)
      = map_option
          (\<lambda>b. (morse_switch_buf (morse_interrupt st))
                 \<lparr>morse_elapsed_time := 0, cb_calls := cb_calls st @ [b]\<rparr>)
          (morse_bit (deref st (morse_next_buf st))
             ((morse_elapsed_time st + ms) div morse_dot_duration))"
    if "\<not> idle (morse_interrupt st)"
  proof -
    have "morse_len (deref (morse_interrupt st) (morse_live_buf (morse_interrupt st)))
        \<le> tick_index ms (morse_interrupt st)"
      using frame by simp
    moreover have "\<not> morse_repeat (morse_interrupt st)"
      "morse_live_buf (morse_interrupt st) \<noteq> morse_next_buf (morse_interrupt st)"
      using frame ne by simp_all
    ultimately show ?thesis
      using morse_update_switch [OF that, of ms] frame by (simp add: tick_index_def)
  qed
  with frame show ?thesis
    by blast
qed

theorem morse_interrupt_frame_witness:
  "morse_len (deref (morse_interrupt example_playing) Buf2) = 0 \<and>
   \<not> morse_repeat (morse_interrupt example_playing) \<and>
   drop 4 (deref (morse_interrupt example_playing) Buf2) = 8 # replicate 1019 0 \<and>
   deref (morse_interrupt example_playing) Buf1 = replicate 1024 0 \<and>
   morse_elapsed_time (morse_interrupt example_playing) = 120 \<and>
   tick_index 60 (morse_interrupt example_playing) = tick_index 60 example_playing"
  using morse_interrupt_frame [OF morse_wf_example_playing, of 60]
  by (simp add: example_playing_def)

end
